theory Spec2Isabelle
  imports Complex_Main "HOL-Library.AList"
begin

section \<open>Content deduplication (monitor/deduplication.py)\<close>

text \<open>
  Points in time (\<open>datetime\<close>) and durations (\<open>timedelta\<close>) are whole numbers of
  microseconds, the resolution of both Python types. Every \<open>datetime.now(UTC)\<close> of the
  source is a parameter \<open>now\<close> of the model. A Python \<open>dict\<close> is an association list
  with distinct keys: \<open>AList.update\<close> overwrites a key in place or appends it, as
  assignment to a dict does, and \<open>AList.delete\<close> is \<open>pop\<close>.
\<close>

datatype py_error = KeyError | OverflowError

text \<open>
  The range of \<open>datetime\<close>, from \<open>0001-01-01 00:00:00\<close> to
  \<open>9999-12-31 23:59:59.999999\<close>, in microseconds since the epoch. Subtracting a
  \<open>timedelta\<close> from a \<open>datetime\<close> raises \<open>OverflowError\<close> when the result leaves it.
\<close>

definition datetime_min :: int where
  "datetime_min = - 62135596800000000"

definition datetime_max :: int where
  "datetime_max = 253402300799999999"

definition datetime_sub :: "int \<Rightarrow> int \<Rightarrow> py_error + int" where
  "datetime_sub dt td =
     (if datetime_min \<le> dt - td \<and> dt - td \<le> datetime_max then Inr (dt - td)
      else Inl OverflowError)"

record SeenPost =
  post_id :: string
  content_hash :: string
  first_seen_at :: int
  last_seen_at :: int
  seen_count :: int

record DeduplicationTracker =
  ttl :: int
  by_id :: "(string \<times> SeenPost) list"
  by_hash :: "(string \<times> string) list"

definition new_tracker :: "int \<Rightarrow> DeduplicationTracker" where
  "new_tracker ttl_us = \<lparr>ttl = ttl_us, by_id = [], by_hash = []\<rparr>"

definition has_id :: "DeduplicationTracker \<Rightarrow> string \<Rightarrow> bool" where
  "has_id t pid = (map_of (by_id t) pid \<noteq> None)"

definition has_hash :: "DeduplicationTracker \<Rightarrow> string \<Rightarrow> bool" where
  "has_hash t h = (map_of (by_hash t) h \<noteq> None)"

definition is_duplicate :: "DeduplicationTracker \<Rightarrow> string \<Rightarrow> string option \<Rightarrow> bool" where
  "is_duplicate t pid h =
     (if map_of (by_id t) pid \<noteq> None then True
      else (case h of None \<Rightarrow> False
            | Some c \<Rightarrow> c \<noteq> [] \<and> map_of (by_hash t) c \<noteq> None))"

text \<open>
  \<open>mark_seen\<close> mutates the record object held by \<open>by_id\<close> when the identity is known,
  so the dict sees the new last-seen time and count; otherwise it stores a new record
  and points the fingerprint at the identity.
\<close>

definition mark_seen ::
  "int \<Rightarrow> DeduplicationTracker \<Rightarrow> string \<Rightarrow> string \<Rightarrow> DeduplicationTracker \<times> SeenPost" where
  "mark_seen now t pid h =
     (case map_of (by_id t) pid of
        Some r \<Rightarrow>
          (let r' = r\<lparr>last_seen_at := now, seen_count := seen_count r + 1\<rparr>
           in (t\<lparr>by_id := AList.update pid r' (by_id t)\<rparr>, r'))
      | None \<Rightarrow>
          (let r = \<lparr>post_id = pid, content_hash = h, first_seen_at = now,
                    last_seen_at = now, seen_count = 1\<rparr>
           in (t\<lparr>by_id := AList.update pid r (by_id t),
                  by_hash := AList.update h pid (by_hash t)\<rparr>, r)))"

definition get_by_id :: "DeduplicationTracker \<Rightarrow> string \<Rightarrow> SeenPost option" where
  "get_by_id t pid = map_of (by_id t) pid"

definition get_by_hash :: "DeduplicationTracker \<Rightarrow> string \<Rightarrow> SeenPost option" where
  "get_by_hash t h =
     (case map_of (by_hash t) h of
        None \<Rightarrow> None
      | Some pid \<Rightarrow> (if pid \<noteq> [] then map_of (by_id t) pid else None))"

text \<open>
  The removal loop of \<open>cleanup_expired\<close>: \<open>self.by_id.pop(post_id)\<close> raises
  \<open>KeyError\<close> on a missing key, \<open>self.by_hash.pop(record.content_hash, None)\<close> never
  raises. An operation that raises leaves the tracker as it is at that point, so every
  operation returns the tracker together with its result or its error.
\<close>

fun pop_expired ::
  "string list \<Rightarrow> DeduplicationTracker \<Rightarrow> int \<Rightarrow> DeduplicationTracker \<times> (py_error + int)" where
  "pop_expired [] t removed = (t, Inr removed)"
| "pop_expired (pid # pids) t removed =
     (case map_of (by_id t) pid of
        None \<Rightarrow> (t, Inl KeyError)
      | Some r \<Rightarrow>
          pop_expired pids
            (t\<lparr>by_id := AList.delete pid (by_id t),
               by_hash := AList.delete (content_hash r) (by_hash t)\<rparr>)
            (removed + 1))"

definition expired_ids :: "int \<Rightarrow> DeduplicationTracker \<Rightarrow> string list" where
  "expired_ids cutoff t =
     map fst (filter (\<lambda>(pid, r). last_seen_at r < cutoff) (by_id t))"

text \<open>
  \<open>cleanup_expired\<close> computes \<open>cutoff = now - self.ttl\<close> before it touches the dicts.
\<close>

definition cleanup_expired ::
  "int \<Rightarrow> DeduplicationTracker \<Rightarrow> DeduplicationTracker \<times> (py_error + int)" where
  "cleanup_expired now t =
     (case datetime_sub now (ttl t) of
        Inl e \<Rightarrow> (t, Inl e)
      | Inr cutoff \<Rightarrow> pop_expired (expired_ids cutoff t) t 0)"

subsection \<open>Sequences of tracker operations\<close>

text \<open>
  An operation on the tracker, with the clock reading it makes. \<open>apply_op\<close> gives the
  tracker after the operation and the error the operation raised, if any;
  \<open>run_trace\<close> gives this for every operation of a sequence, the caller going on with
  the tracker after an error.
\<close>

datatype tracker_op = MarkSeen int string string | CleanupExpired int

fun apply_op :: "DeduplicationTracker \<Rightarrow> tracker_op \<Rightarrow> DeduplicationTracker \<times> py_error option" where
  "apply_op t (MarkSeen now pid h) = (fst (mark_seen now t pid h), None)"
| "apply_op t (CleanupExpired now) =
     (case cleanup_expired now t of
        (t', Inl e) \<Rightarrow> (t', Some e)
      | (t', Inr n) \<Rightarrow> (t', None))"

fun run_trace ::
  "DeduplicationTracker \<Rightarrow> tracker_op list \<Rightarrow> (DeduplicationTracker \<times> py_error option) list" where
  "run_trace t [] = []"
| "run_trace t (x # xs) = apply_op t x # run_trace (fst (apply_op t x)) xs"

text \<open>The two directions of the consistency of the indexes.\<close>

definition hash_index_sound :: "DeduplicationTracker \<Rightarrow> bool" where
  "hash_index_sound t = (\<forall>(h, pid) \<in> set (by_hash t). map_of (by_id t) pid \<noteq> None)"

definition id_index_covered :: "DeduplicationTracker \<Rightarrow> bool" where
  "id_index_covered t =
     (\<forall>(pid, r) \<in> set (by_id t). map_of (by_hash t) (content_hash r) = Some pid)"

text \<open>
  No \<open>mark_seen\<close> of the sequence stores a new identity under a fingerprint that the
  fingerprint index holds at that moment.
\<close>

fun fresh_fingerprints :: "DeduplicationTracker \<Rightarrow> tracker_op list \<Rightarrow> bool" where
  "fresh_fingerprints t [] = True"
| "fresh_fingerprints t (MarkSeen now pid h # xs) =
     ((has_id t pid \<or> \<not> has_hash t h)
      \<and> fresh_fingerprints (fst (apply_op t (MarkSeen now pid h))) xs)"
| "fresh_fingerprints t (CleanupExpired now # xs) =
     fresh_fingerprints (fst (apply_op t (CleanupExpired now))) xs"

text \<open>
  The invariants behind the consistency of the indexes. The keys of both dicts are
  distinct and every entry of the fingerprint index points at a stored record that
  carries this fingerprint; every stored record is found under its fingerprint.
\<close>

definition index_inv :: "DeduplicationTracker \<Rightarrow> bool" where
  "index_inv t =
     (distinct (map fst (by_id t)) \<and> distinct (map fst (by_hash t)) \<and>
      (\<forall>h p. map_of (by_hash t) h = Some p \<longrightarrow>
         (\<exists>r. map_of (by_id t) p = Some r \<and> content_hash r = h)))"

definition cover_inv :: "DeduplicationTracker \<Rightarrow> bool" where
  "cover_inv t =
     (\<forall>p r. map_of (by_id t) p = Some r \<longrightarrow> map_of (by_hash t) (content_hash r) = Some p)"

section \<open>Rate limiter (monitor/rate_limiter.py)\<close>

text \<open>
  \<open>time.time()\<close> and the timestamps of the three deques are Python floats (IEEE 754
  binary64), in seconds. A float is the real number it stands for, and every operation
  of the source on timestamps is the exact operation followed by \<open>float_round\<close>: rounding
  to the nearest float, ties to the even one, with 53 significant bits and the fixed
  spacing \<open>2 ^ -1074\<close> below \<open>2 ^ -1022\<close>. An \<open>int\<close> that meets a float is converted
  with the same rounding. Infinities and NaN are not modelled, so magnitudes from
  \<open>2 ^ 1024\<close> on are outside the model. The \<open>datetime\<close> values of the upstream state
  are microseconds since the epoch. The two clocks that \<open>can_request\<close> and \<open>wait_time\<close>
  read, \<open>time.time()\<close> and \<open>datetime.now(UTC)\<close>, are the parameters \<open>now\<close> (seconds)
  and \<open>now_utc\<close> (microseconds). A deque is a list, oldest entry first.
\<close>

definition round_half_even :: "real \<Rightarrow> int" where
  "round_half_even y =
     (let f = \<lfloor>y\<rfloor>; d = y - real_of_int f
      in if d < 1 / 2 then f else if d > 1 / 2 then f + 1 else if even f then f else f + 1)"

definition float_ulp :: "real \<Rightarrow> real" where
  "float_ulp x = 2 powr real_of_int (max \<lfloor>log 2 \<bar>x\<bar>\<rfloor> (- 1022) - 52)"

definition float_round :: "real \<Rightarrow> real" where
  "float_round x =
     (if x = 0 then 0 else real_of_int (round_half_even (x / float_ulp x)) * float_ulp x)"

definition float_of_int :: "int \<Rightarrow> real" where
  "float_of_int n = float_round (real_of_int n)"

definition fadd :: "real \<Rightarrow> real \<Rightarrow> real" where
  "fadd a b = float_round (a + b)"

definition fsub :: "real \<Rightarrow> real \<Rightarrow> real" where
  "fsub a b = float_round (a - b)"

datatype RequestBudget = NEW_POSTS | TRENDING | COMMENTS | AGENTS | RESERVE

fun BUDGET_ALLOCATION :: "RequestBudget \<Rightarrow> real" where
  "BUDGET_ALLOCATION NEW_POSTS = 40 / 100"
| "BUDGET_ALLOCATION TRENDING = 20 / 100"
| "BUDGET_ALLOCATION COMMENTS = 20 / 100"
| "BUDGET_ALLOCATION AGENTS = 10 / 100"
| "BUDGET_ALLOCATION RESERVE = 10 / 100"

text \<open>
  Python's \<open>int(x)\<close> on a float truncates towards zero. The budget caps
  \<open>int(requests_per_minute * allocation)\<close> are taken on the exact product.
\<close>

definition py_int :: "real \<Rightarrow> int" where
  "py_int x = (if 0 \<le> x then \<lfloor>x\<rfloor> else \<lceil>x\<rceil>)"

record RateLimitConfig =
  requests_per_minute :: int
  requests_per_hour :: int
  requests_per_day :: int
  warning_threshold :: real
  minute_window :: int
  hour_window :: int
  day_window :: int

definition default_rate_limit_config :: RateLimitConfig where
  "default_rate_limit_config =
     \<lparr>requests_per_minute = 100, requests_per_hour = 5000, requests_per_day = 50000,
      warning_threshold = 80 / 100, minute_window = 60, hour_window = 3600,
      day_window = 86400\<rparr>"

record RateLimitState =
  limit :: "int option"
  remaining :: "int option"
  reset_at :: "int option"
  last_updated :: "int option"

record RateLimiter =
  config :: RateLimitConfig
  minute_requests :: "real list"
  hour_requests :: "real list"
  day_requests :: "real list"
  api_state :: RateLimitState
  budget_usage :: "RequestBudget \<rightharpoonup> int"

text \<open>
  A limiter as the dataclass builds it: empty deques, no upstream state, and
  \<open>__post_init__\<close> setting the usage of every category to 0.
\<close>

definition new_rate_limiter :: "RateLimitConfig \<Rightarrow> RateLimiter" where
  "new_rate_limiter cfg =
     \<lparr>config = cfg, minute_requests = [], hour_requests = [], day_requests = [],
      api_state = \<lparr>limit = None, remaining = None, reset_at = None, last_updated = None\<rparr>,
      budget_usage = (\<lambda>b. Some 0)\<rparr>"

text \<open>
  \<open>update_from_headers\<close>; the parameter \<open>reset_dt\<close> is the \<open>datetime\<close> that
  \<open>datetime.fromtimestamp(reset_timestamp, tz=UTC)\<close> makes of the header value, when there
  is one.
\<close>

definition update_from_headers ::
  "RateLimitState \<Rightarrow> int option \<Rightarrow> int option \<Rightarrow> int option \<Rightarrow> int \<Rightarrow> RateLimitState" where
  "update_from_headers st lim_v rem_v reset_dt now_utc =
     \<lparr>limit = (case lim_v of None \<Rightarrow> limit st | Some l \<Rightarrow> Some l),
      remaining = (case rem_v of None \<Rightarrow> remaining st | Some r \<Rightarrow> Some r),
      reset_at = (case reset_dt of None \<Rightarrow> reset_at st | Some t \<Rightarrow> Some t),
      last_updated = Some now_utc\<rparr>"

definition cleanup_old_requests :: "real \<Rightarrow> RateLimiter \<Rightarrow> RateLimiter" where
  "cleanup_old_requests now s =
     (let minute_cutoff = fsub now (float_of_int (minute_window (config s)));
          hour_cutoff = fsub now (float_of_int (hour_window (config s)));
          day_cutoff = fsub now (float_of_int (day_window (config s)))
      in s\<lparr>minute_requests := dropWhile (\<lambda>t. t < minute_cutoff) (minute_requests s),
            hour_requests := dropWhile (\<lambda>t. t < hour_cutoff) (hour_requests s),
            day_requests := dropWhile (\<lambda>t. t < day_cutoff) (day_requests s)\<rparr>)"

definition get_counts :: "real \<Rightarrow> RateLimiter \<Rightarrow> RateLimiter \<times> (int \<times> int \<times> int)" where
  "get_counts now s =
     (let s' = cleanup_old_requests now s
      in (s', (int (length (minute_requests s')), int (length (hour_requests s')),
               int (length (day_requests s')))))"

definition usage :: "RateLimiter \<Rightarrow> RequestBudget \<Rightarrow> int" where
  "usage s b = (case budget_usage s b of None \<Rightarrow> 0 | Some n \<Rightarrow> n)"

text \<open>The upstream condition of \<open>can_request\<close>: remaining known and used up, reset known and ahead.\<close>

definition api_blocks :: "RateLimiter \<Rightarrow> int \<Rightarrow> bool" where
  "api_blocks s now_utc =
     (case remaining (api_state s) of
        None \<Rightarrow> False
      | Some r \<Rightarrow> r \<le> 0 \<and> (case reset_at (api_state s) of None \<Rightarrow> False | Some t \<Rightarrow> now_utc < t))"

definition can_request ::
  "RateLimiter \<Rightarrow> real \<Rightarrow> int \<Rightarrow> RequestBudget option \<Rightarrow> RateLimiter \<times> bool" where
  "can_request s now now_utc budget =
     (case get_counts now s of (s', (minute_count, hour_count, day_count)) \<Rightarrow>
        if minute_count \<ge> requests_per_minute (config s') then (s', False)
        else if hour_count \<ge> requests_per_hour (config s') then (s', False)
        else if day_count \<ge> requests_per_day (config s') then (s', False)
        else if api_blocks s' now_utc then (s', False)
        else (case budget of
                None \<Rightarrow> (s', True)
              | Some b \<Rightarrow>
                  (let allocation = BUDGET_ALLOCATION b;
                       max_for_budget =
                         py_int (real_of_int (requests_per_minute (config s')) * allocation)
                   in if usage s' b \<ge> max_for_budget then
                        (let reserve_remaining =
                               py_int (real_of_int (requests_per_minute (config s'))
                                       * BUDGET_ALLOCATION RESERVE)
                               - usage s' RESERVE
                         in if reserve_remaining \<le> 0 then (s', False) else (s', True))
                      else (s', True))))"

definition record_request :: "RateLimiter \<Rightarrow> real \<Rightarrow> RequestBudget \<Rightarrow> RateLimiter" where
  "record_request s now budget =
     s\<lparr>minute_requests := minute_requests s @ [now],
        hour_requests := hour_requests s @ [now],
        day_requests := day_requests s @ [now],
        budget_usage := (budget_usage s)(budget \<mapsto> usage s budget + 1)\<rparr>"

text \<open>\<open>self.minute_requests[0] if self.minute_requests else now\<close>\<close>

definition oldest_or :: "real list \<Rightarrow> real \<Rightarrow> real" where
  "oldest_or q now = (case q of [] \<Rightarrow> now | t # _ \<Rightarrow> t)"

text \<open>
  \<open>wait_time\<close>: the wait of a window is \<open>(oldest + window) - now\<close>, two float operations;
  the wait for the upstream reset is \<open>total_seconds()\<close> of the difference of two
  \<open>datetime\<close> values: the microseconds divided by \<open>10 ^ 6\<close>, as a float.
\<close>

definition wait_time :: "RateLimiter \<Rightarrow> real \<Rightarrow> int \<Rightarrow> RateLimiter \<times> real" where
  "wait_time s now now_utc =
     (case get_counts now s of (s', (minute_count, hour_count, day_count)) \<Rightarrow>
        (let wait_m = fsub (fadd (oldest_or (minute_requests s') now)
                                 (float_of_int (minute_window (config s')))) now;
             wait_h = fsub (fadd (oldest_or (hour_requests s') now)
                                 (float_of_int (hour_window (config s')))) now;
             wait_d = fsub (fadd (oldest_or (day_requests s') now)
                                 (float_of_int (day_window (config s')))) now
         in if minute_count \<ge> requests_per_minute (config s') \<and> wait_m > 0 then (s', wait_m)
            else if hour_count \<ge> requests_per_hour (config s') \<and> wait_h > 0 then (s', wait_h)
            else if day_count \<ge> requests_per_day (config s') \<and> wait_d > 0 then (s', wait_d)
            else (case remaining (api_state s') of
                    None \<Rightarrow> (s', 0)
                  | Some r \<Rightarrow>
                      if r \<le> 0 then
                        (case reset_at (api_state s') of
                           None \<Rightarrow> (s', 0)
                         | Some t \<Rightarrow>
                             (let reset_wait = float_round (real_of_int (t - now_utc) / 1000000)
                              in if reset_wait > 0 then (s', reset_wait) else (s', 0)))
                      else (s', 0))))"

definition reset_budget :: "RateLimiter \<Rightarrow> RateLimiter" where
  "reset_budget s = s\<lparr>budget_usage := (\<lambda>b. Some 0)\<rparr>"

fun record_requests :: "RateLimiter \<Rightarrow> real list \<Rightarrow> RequestBudget \<Rightarrow> RateLimiter" where
  "record_requests s [] b = s"
| "record_requests s (t # ts) b = record_requests (record_request s t b) ts b"

definition update_from_response ::
  "RateLimiter \<Rightarrow> int option \<Rightarrow> int option \<Rightarrow> int option \<Rightarrow> int \<Rightarrow> RateLimiter" where
  "update_from_response s lim_v rem_v reset_dt now_utc =
     s\<lparr>api_state := update_from_headers (api_state s) lim_v rem_v reset_dt now_utc\<rparr>"

text \<open>
  The quantities the delay of \<open>wait_time\<close> is described with. The delay of a window is
  the wait the code computes for it, \<open>(oldest + window) - now\<close> with \<open>now\<close> for an empty
  window; \<open>first_window_delay\<close> is the delay of the first window, in the order minute,
  hour, day, whose count has reached its limit after the cleanup pass;
  \<open>upstream_delay\<close> is the time until the reset the upstream service reported, if its
  remaining budget blocks.
\<close>

definition window_delay :: "real list \<Rightarrow> int \<Rightarrow> real \<Rightarrow> real" where
  "window_delay q window now = fsub (fadd (oldest_or q now) (float_of_int window)) now"

definition first_window_delay :: "RateLimiter \<Rightarrow> real \<Rightarrow> real option" where
  "first_window_delay s now =
     (let s' = cleanup_old_requests now s
      in if int (length (minute_requests s')) \<ge> requests_per_minute (config s')
         then Some (window_delay (minute_requests s') (minute_window (config s')) now)
         else if int (length (hour_requests s')) \<ge> requests_per_hour (config s')
         then Some (window_delay (hour_requests s') (hour_window (config s')) now)
         else if int (length (day_requests s')) \<ge> requests_per_day (config s')
         then Some (window_delay (day_requests s') (day_window (config s')) now)
         else None)"

definition upstream_delay :: "RateLimiter \<Rightarrow> int \<Rightarrow> real option" where
  "upstream_delay s now_utc =
     (if api_blocks s now_utc
      then map_option (\<lambda>t. float_round (real_of_int (t - now_utc) / 1000000))
             (reset_at (api_state s))
      else None)"

text \<open>
  The delay as the specification words it: of the delay of the earliest blocking window
  and the delay until the upstream reset, the one that is binding, which is the later
  of the two, since a request is refused until both have passed.
\<close>

definition binding_delay :: "RateLimiter \<Rightarrow> real \<Rightarrow> int \<Rightarrow> real" where
  "binding_delay s now now_utc =
     max (case first_window_delay s now of None \<Rightarrow> 0 | Some d \<Rightarrow> d)
         (case upstream_delay s now_utc of None \<Rightarrow> 0 | Some u \<Rightarrow> u)"

section \<open>Backoff handler (monitor/backoff.py)\<close>

text \<open>
  Delays are Python floats, modelled as reals. The value drawn by
  \<open>random.uniform(jitter_min, jitter_max)\<close> is the parameter \<open>jitter\<close> of every function
  that reaches \<open>_apply_jitter\<close>; clock readings are parameters as before.
\<close>

datatype ErrorType = RATE_LIMITED | SERVER_ERROR | CLIENT_ERROR | TIMEOUT | CONNECTION | UNKNOWN

record BackoffConfig =
  base_delay :: real
  max_exponent :: int
  max_delay :: real
  jitter_min :: real
  jitter_max :: real
  timeout_multiplier :: real

definition default_backoff_config :: BackoffConfig where
  "default_backoff_config =
     \<lparr>base_delay = 1, max_exponent = 8, max_delay = 300, jitter_min = 8 / 10,
      jitter_max = 12 / 10, timeout_multiplier = 2\<rparr>"

record BackoffState =
  error_count :: int
  last_error_at :: "real option"
  last_error_type :: "ErrorType option"
  retry_after :: "real option"
  consecutive_successes :: int

definition new_backoff_state :: BackoffState where
  "new_backoff_state =
     \<lparr>error_count = 0, last_error_at = None, last_error_type = None, retry_after = None,
      consecutive_successes = 0\<rparr>"

text \<open>\<open>BackoffState.record_error\<close>; it reads the clock twice.\<close>

definition state_record_error ::
  "BackoffState \<Rightarrow> ErrorType \<Rightarrow> real option \<Rightarrow> real \<Rightarrow> real \<Rightarrow> BackoffState" where
  "state_record_error st error_type retry_after_seconds now1 now2 =
     st\<lparr>error_count := error_count st + 1,
        last_error_at := Some now1,
        last_error_type := Some error_type,
        consecutive_successes := 0,
        retry_after := (case retry_after_seconds of None \<Rightarrow> None | Some d \<Rightarrow> Some (now2 + d))\<rparr>"

text \<open>\<open>BackoffState.record_success\<close>\<close>

definition state_record_success :: "BackoffState \<Rightarrow> BackoffState" where
  "state_record_success st =
     (let st1 = st\<lparr>consecutive_successes := consecutive_successes st + 1\<rparr>
      in if consecutive_successes st1 \<ge> 3
         then st1\<lparr>error_count := 0, last_error_type := None, retry_after := None\<rparr>
         else st1)"

text \<open>\<open>BackoffState.reset\<close>\<close>

definition state_reset :: "BackoffState \<Rightarrow> BackoffState" where
  "state_reset st = new_backoff_state"

record BackoffHandler =
  backoff_config :: BackoffConfig
  endpoint_states :: "(string \<times> BackoffState) list"

definition new_backoff_handler :: "BackoffConfig \<Rightarrow> BackoffHandler" where
  "new_backoff_handler cfg = \<lparr>backoff_config = cfg, endpoint_states = []\<rparr>"

text \<open>\<open>_get_state\<close> stores a fresh state for an endpoint it does not know yet.\<close>

definition get_state :: "BackoffHandler \<Rightarrow> string \<Rightarrow> BackoffHandler \<times> BackoffState" where
  "get_state h endpoint =
     (case map_of (endpoint_states h) endpoint of
        None \<Rightarrow>
          (h\<lparr>endpoint_states := AList.update endpoint new_backoff_state (endpoint_states h)\<rparr>,
           new_backoff_state)
      | Some st \<Rightarrow> (h, st))"

definition apply_jitter :: "real \<Rightarrow> real \<Rightarrow> real" where
  "apply_jitter delay jitter = delay * jitter"

text \<open>
  \<open>2 ** exponent\<close> for an integer exponent: an integer power, and its reciprocal for a
  negative exponent.
\<close>

definition pow2 :: "int \<Rightarrow> real" where
  "pow2 e = (if 0 \<le> e then 2 ^ nat e else 1 / 2 ^ nat (- e))"

text \<open>
  The delay \<open>calculate_delay\<close> computes before jitter and cap: linear in the error count
  for a timeout, exponential otherwise.
\<close>

definition unjittered_delay :: "BackoffConfig \<Rightarrow> BackoffState \<Rightarrow> ErrorType \<Rightarrow> real" where
  "unjittered_delay cfg st error_type =
     (if error_type = TIMEOUT
      then base_delay cfg * timeout_multiplier cfg * real_of_int (error_count st)
      else (let exponent = min (error_count st) (max_exponent cfg)
            in base_delay cfg * pow2 exponent))"

definition calculate_delay ::
  "BackoffHandler \<Rightarrow> string \<Rightarrow> ErrorType \<Rightarrow> real option \<Rightarrow> real \<Rightarrow> BackoffHandler \<times> real" where
  "calculate_delay h endpoint error_type retry_after_seconds jitter =
     (case get_state h endpoint of (h', st) \<Rightarrow>
        if error_type = CLIENT_ERROR then (h', 0)
        else (case retry_after_seconds of
                Some ra \<Rightarrow>
                  if ra > 0 then (h', min ra (max_delay (backoff_config h')))
                  else (h', min (apply_jitter (unjittered_delay (backoff_config h') st error_type) jitter)
                                (max_delay (backoff_config h')))
              | None \<Rightarrow>
                  (h', min (apply_jitter (unjittered_delay (backoff_config h') st error_type) jitter)
                           (max_delay (backoff_config h')))))"

text \<open>
  \<open>BackoffHandler.record_error\<close>: the state object of the endpoint is mutated in place,
  then the delay is computed from it.
\<close>

definition record_error ::
  "BackoffHandler \<Rightarrow> string \<Rightarrow> ErrorType \<Rightarrow> real option \<Rightarrow> real \<Rightarrow> real \<Rightarrow> real
     \<Rightarrow> BackoffHandler \<times> real" where
  "record_error h endpoint error_type retry_after_seconds now1 now2 jitter =
     (case get_state h endpoint of (h1, st) \<Rightarrow>
        (let st' = state_record_error st error_type retry_after_seconds now1 now2;
             h2 = h1\<lparr>endpoint_states := AList.update endpoint st' (endpoint_states h1)\<rparr>
         in calculate_delay h2 endpoint error_type retry_after_seconds jitter))"

definition record_success :: "BackoffHandler \<Rightarrow> string \<Rightarrow> BackoffHandler" where
  "record_success h endpoint =
     (case get_state h endpoint of (h1, st) \<Rightarrow>
        h1\<lparr>endpoint_states := AList.update endpoint (state_record_success st) (endpoint_states h1)\<rparr>)"

definition should_retry :: "BackoffHandler \<Rightarrow> string \<Rightarrow> ErrorType \<Rightarrow> BackoffHandler \<times> bool" where
  "should_retry h endpoint error_type =
     (if error_type = CLIENT_ERROR then (h, False)
      else (case get_state h endpoint of (h', st) \<Rightarrow>
              if error_count st \<ge> max_exponent (backoff_config h') then (h', False)
              else (h', True)))"

definition classify_http_error :: "int \<Rightarrow> ErrorType" where
  "classify_http_error status_code =
     (if status_code = 429 then RATE_LIMITED
      else if 400 \<le> status_code \<and> status_code < 500 then CLIENT_ERROR
      else if 500 \<le> status_code \<and> status_code < 600 then SERVER_ERROR
      else UNKNOWN)"

text \<open>
  Any number of \<open>record_error\<close> calls for one endpoint with a server error, each with its
  own retry-after value, clock readings and jitter.
\<close>

definition record_server_errors ::
  "BackoffHandler \<Rightarrow> string \<Rightarrow> (real option \<times> real \<times> real \<times> real) list \<Rightarrow> BackoffHandler" where
  "record_server_errors h e calls =
     foldl (\<lambda>h' (ra, now1, now2, jitter). fst (record_error h' e SERVER_ERROR ra now1 now2 jitter))
       h calls"

text \<open>Histories of one endpoint state, for the reachable states of a \<open>BackoffState\<close>.\<close>

datatype state_op = RecordError ErrorType "real option" real real | RecordSuccess | Reset

fun apply_state_op :: "BackoffState \<Rightarrow> state_op \<Rightarrow> BackoffState" where
  "apply_state_op st (RecordError et ra now1 now2) = state_record_error st et ra now1 now2"
| "apply_state_op st RecordSuccess = state_record_success st"
| "apply_state_op st Reset = state_reset st"

section \<open>Adaptive polling (monitor/scheduler.py)\<close>

text \<open>
  A \<open>timedelta\<close> is its number of microseconds, a \<open>datetime\<close> the microseconds since the
  epoch. Activity rates are Python floats, modelled as reals. Multiplying a
  \<open>timedelta\<close> by a float multiplies the microseconds by the float's integer ratio and
  rounds half to even (the standard library's \<open>_divide_and_round\<close>); \<open>0.5\<close> is the
  ratio \<open>(1, 2)\<close>.
\<close>

datatype EndpointType =
  EP_NEW_POSTS | HOT_POSTS | TOP_POSTS | RISING_POSTS | SUBMOLTS | EP_COMMENTS | EP_AGENTS

record PollingInterval =
  default_td :: int
  minimum :: int
  maximum :: int

definition minutes :: "int \<Rightarrow> int" where
  "minutes n = n * 60000000"

definition hours :: "int \<Rightarrow> int" where
  "hours n = n * 3600000000"

fun DEFAULT_INTERVALS :: "EndpointType \<Rightarrow> PollingInterval option" where
  "DEFAULT_INTERVALS EP_NEW_POSTS =
     Some \<lparr>default_td = minutes 5, minimum = minutes 1, maximum = minutes 30\<rparr>"
| "DEFAULT_INTERVALS HOT_POSTS =
     Some \<lparr>default_td = minutes 15, minimum = minutes 5, maximum = hours 1\<rparr>"
| "DEFAULT_INTERVALS TOP_POSTS =
     Some \<lparr>default_td = hours 1, minimum = minutes 15, maximum = hours 6\<rparr>"
| "DEFAULT_INTERVALS RISING_POSTS =
     Some \<lparr>default_td = minutes 10, minimum = minutes 2, maximum = minutes 30\<rparr>"
| "DEFAULT_INTERVALS SUBMOLTS =
     Some \<lparr>default_td = hours 6, minimum = hours 1, maximum = hours 24\<rparr>"
| "DEFAULT_INTERVALS EP_COMMENTS = None"
| "DEFAULT_INTERVALS EP_AGENTS = None"

definition divide_and_round :: "int \<Rightarrow> int \<Rightarrow> int" where
  "divide_and_round a b =
     (let q = a div b; r = 2 * (a mod b);
          greater_than_half = (if b > 0 then r > b else r < b)
      in if greater_than_half \<or> (r = b \<and> q mod 2 = 1) then q + 1 else q)"

definition td_mul_float :: "int \<Rightarrow> int \<times> int \<Rightarrow> int" where
  "td_mul_float td ratio = divide_and_round (td * fst ratio) (snd ratio)"

definition total_seconds :: "int \<Rightarrow> real" where
  "total_seconds td = real_of_int td / 1000000"

record ActivityTracker =
  window_size :: int
  samples :: "(int \<times> int) list"

definition new_activity_tracker :: ActivityTracker where
  "new_activity_tracker = \<lparr>window_size = hours 1, samples = []\<rparr>"

definition cleanup_old_samples :: "ActivityTracker \<Rightarrow> int \<Rightarrow> ActivityTracker" where
  "cleanup_old_samples tr now =
     tr\<lparr>samples := filter (\<lambda>(ts, c). ts > now - window_size tr) (samples tr)\<rparr>"

definition record_activity :: "ActivityTracker \<Rightarrow> int \<Rightarrow> int \<Rightarrow> int \<Rightarrow> ActivityTracker" where
  "record_activity tr n now1 now2 =
     cleanup_old_samples (tr\<lparr>samples := samples tr @ [(now1, n)]\<rparr>) now2"

definition get_rate :: "ActivityTracker \<Rightarrow> int \<Rightarrow> ActivityTracker \<times> real" where
  "get_rate tr now =
     (let tr' = cleanup_old_samples tr now
      in if samples tr' = [] then (tr', 0)
         else (let total_count = sum_list (map snd (samples tr'));
                   time_span =
                     total_seconds (fst (last (samples tr')) - fst (hd (samples tr'))) / 60
               in if time_span \<le> 0 then (tr', real_of_int total_count)
                  else (tr', real_of_int total_count / time_span)))"

definition is_high_activity :: "ActivityTracker \<Rightarrow> int \<Rightarrow> real \<Rightarrow> ActivityTracker \<times> bool" where
  "is_high_activity tr now threshold =
     (case get_rate tr now of (tr', rate) \<Rightarrow> (tr', rate > threshold))"

definition is_low_activity :: "ActivityTracker \<Rightarrow> int \<Rightarrow> real \<Rightarrow> ActivityTracker \<times> bool" where
  "is_low_activity tr now threshold =
     (case get_rate tr now of (tr', rate) \<Rightarrow> (tr', rate < threshold))"

definition is_spiking :: "ActivityTracker \<Rightarrow> int \<Rightarrow> real \<Rightarrow> ActivityTracker \<times> bool" where
  "is_spiking tr now multiplier =
     (let tr' = cleanup_old_samples tr now
      in if length (samples tr') < 3 then (tr', False)
         else (let historical = butlast (samples tr');
                   historical_total = sum_list (map snd historical);
                   historical_span =
                     total_seconds (fst (last historical) - fst (hd historical)) / 60
               in if historical_span \<le> 0 then (tr', False)
                  else (let historical_rate = real_of_int historical_total / historical_span;
                            recent_count = snd (last (samples tr'));
                            baseline = max historical_rate 10
                        in (tr', real_of_int recent_count > baseline * multiplier))))"

text \<open>
  \<open>PollingScheduler._get_adaptive_interval\<close> on the scheduler's activity tracker, the
  only part of the scheduler it touches. The three predicates clean the samples up, each
  at its own clock reading, and a later one is evaluated only if the earlier ones are
  false. The thresholds are the defaults of the predicates (3, 10, 1).
\<close>

definition get_adaptive_interval ::
  "ActivityTracker \<Rightarrow> EndpointType \<Rightarrow> int \<Rightarrow> int \<Rightarrow> int \<Rightarrow> ActivityTracker \<times> int" where
  "get_adaptive_interval tr endpoint_type now1 now2 now3 =
     (case DEFAULT_INTERVALS endpoint_type of
        None \<Rightarrow> (tr, minutes 5)
      | Some cfg \<Rightarrow>
          (let base_interval = default_td cfg
           in case is_spiking tr now1 3 of (tr1, spiking) \<Rightarrow>
                if spiking then (tr1, minimum cfg)
                else (case is_high_activity tr1 now2 10 of (tr2, high) \<Rightarrow>
                        if high then (tr2, max (td_mul_float base_interval (1, 2)) (minimum cfg))
                        else (case is_low_activity tr2 now3 1 of (tr3, low) \<Rightarrow>
                                if low then (tr3, min (base_interval * 2) (maximum cfg))
                                else (tr3, base_interval)))))"

section \<open>Crawl policy rules (monitor/robots.py)\<close>

text \<open>
  \<open>RobotsRule.matches\<close> builds a regular expression from the rule's path with
  \<open>re.escape\<close>, \<open>str.replace\<close> and the anchor step, and hands it to \<open>re.match\<close>. The three
  string steps are modelled as they are written. The expressions they can produce use
  only escaped characters, plain characters, \<open>.*\<close>, a leading \<open>^\<close> and a final \<open>$\<close>;
  \<open>re_parse\<close> reads exactly this fragment and answers \<open>None\<close> for anything else, which
  stands for \<open>re.error\<close> and sends \<open>matches\<close> to its prefix fallback.
\<close>

definition bslash :: char where
  "bslash = CHR 0x5C"

definition newline :: char where
  "newline = CHR 0x0A"

text \<open>The characters \<open>re.escape\<close> puts a backslash in front of.\<close>

definition re_special :: "char list" where
  "re_special =
     ''()[]{}?*+-|^$.&~# '' @ [bslash, CHR 0x09, CHR 0x0A, CHR 0x0D, CHR 0x0B, CHR 0x0C]"

definition re_escape :: "string \<Rightarrow> string" where
  "re_escape s = concat (map (\<lambda>c. if c \<in> set re_special then [bslash, c] else [c]) s)"

text \<open>\<open>pattern.replace(r"\*", ".*")\<close>: every occurrence, left to right, without overlap.\<close>

fun replace_star :: "string \<Rightarrow> string" where
  "replace_star (a # b # cs) =
     (if a = bslash \<and> b = CHR ''*'' then ''.*'' @ replace_star cs
      else a # replace_star (b # cs))"
| "replace_star cs = cs"

definition ends_with :: "string \<Rightarrow> string \<Rightarrow> bool" where
  "ends_with s suffix = (length suffix \<le> length s \<and> drop (length s - length suffix) s = suffix)"

definition starts_with :: "string \<Rightarrow> string \<Rightarrow> bool" where
  "starts_with s pre = (take (length pre) s = pre)"

definition anchor :: "string \<Rightarrow> string" where
  "anchor pattern =
     (if ends_with pattern [bslash, CHR ''$'']
      then take (length pattern - 2) pattern @ ''$''
      else ''^'' @ pattern)"

datatype re_atom = Lit char | AnyStar | Bol | Eol

fun re_parse :: "string \<Rightarrow> re_atom list option" where
  "re_parse [] = Some []"
| "re_parse (c # cs) =
     (if c = bslash then
        (case cs of
           [] \<Rightarrow> None
         | d # ds \<Rightarrow> if d \<in> set re_special then map_option ((#) (Lit d)) (re_parse ds) else None)
      else if c = CHR ''.'' then
        (case cs of
           [] \<Rightarrow> None
         | d # ds \<Rightarrow> if d = CHR ''*'' then map_option ((#) AnyStar) (re_parse ds) else None)
      else if c = CHR ''^'' then map_option ((#) Bol) (re_parse cs)
      else if c = CHR ''$'' then map_option ((#) Eol) (re_parse cs)
      else if c \<in> set ''()[]{}?*+|'' then None
      else map_option ((#) (Lit c)) (re_parse cs))"

text \<open>
  \<open>re.match\<close> without flags, as a yes/no answer: the expression must match a prefix of
  the text. \<open>.\<close> matches any character but a newline, \<open>^\<close> only at the start of the text,
  \<open>$\<close> at its end or before a newline that ends it. The flag says whether the position
  is the start of the text.
\<close>

fun match_atoms :: "re_atom list \<Rightarrow> string \<Rightarrow> bool \<Rightarrow> bool" where
  "match_atoms [] s at_start = True"
| "match_atoms (Lit c # ats) s at_start =
     (case s of [] \<Rightarrow> False | x # xs \<Rightarrow> x = c \<and> match_atoms ats xs False)"
| "match_atoms (AnyStar # ats) s at_start =
     (match_atoms ats s at_start \<or>
      (case s of [] \<Rightarrow> False | x # xs \<Rightarrow> x \<noteq> newline \<and> match_atoms (AnyStar # ats) xs False))"
| "match_atoms (Bol # ats) s at_start = (at_start \<and> match_atoms ats s at_start)"
| "match_atoms (Eol # ats) s at_start = ((s = [] \<or> s = [newline]) \<and> match_atoms ats s at_start)"

text \<open>\<open>self.path.rstrip("*$")\<close>\<close>

definition rstrip_star_dollar :: "string \<Rightarrow> string" where
  "rstrip_star_dollar s = rev (dropWhile (\<lambda>c. c = CHR ''*'' \<or> c = CHR ''$'') (rev s))"

record RobotsRule =
  path :: string
  allow :: bool

definition matches :: "RobotsRule \<Rightarrow> string \<Rightarrow> bool" where
  "matches rule p =
     (let pattern = anchor (replace_star (re_escape (path rule)))
      in case re_parse pattern of
           Some atoms \<Rightarrow> match_atoms atoms p True
         | None \<Rightarrow> starts_with p (rstrip_star_dollar (path rule)))"

record RobotsDirectives =
  user_agent :: string
  rules :: "RobotsRule list"
  crawl_delay :: "real option"
  sitemaps :: "string list"

text \<open>The loop of \<open>RobotsDirectives.is_allowed\<close> over the rules, in their order.\<close>

fun first_match :: "RobotsRule list \<Rightarrow> string \<Rightarrow> bool" where
  "first_match [] p = True"
| "first_match (rule # rs) p = (if matches rule p then allow rule else first_match rs p)"

definition is_allowed :: "RobotsDirectives \<Rightarrow> string \<Rightarrow> bool" where
  "is_allowed d p = first_match (rules d) p"

text \<open>A directive set with the given rules and nothing else, and the rules of the examples.\<close>

definition directives :: "RobotsRule list \<Rightarrow> RobotsDirectives" where
  "directives rs = \<lparr>user_agent = ''*'', rules = rs, crawl_delay = None, sitemaps = []\<rparr>"

definition Disallow :: "string \<Rightarrow> RobotsRule" where
  "Disallow p = \<lparr>path = p, allow = False\<rparr>"

definition Allow :: "string \<Rightarrow> RobotsRule" where
  "Allow p = \<lparr>path = p, allow = True\<rparr>"

text \<open>
  What the three string steps make of one character of a rule path, and the atom the
  expression has for it: \<open>*\<close> becomes \<open>.*\<close>, every other character stands for itself.
\<close>

definition translate_char :: "char \<Rightarrow> string" where
  "translate_char c =
     (if c = CHR ''*'' then ''.*'' else if c \<in> set re_special then [bslash, c] else [c])"

definition glob_atom :: "char \<Rightarrow> re_atom" where
  "glob_atom c = (if c = CHR ''*'' then AnyStar else Lit c)"

section \<open>Example states\<close>

text \<open>A tracker that has seen one post, and the record it holds for it.\<close>

definition ex_tracker :: DeduplicationTracker where
  "ex_tracker = fst (mark_seen 10 (new_tracker 100) ''p1'' ''h1'')"

definition ex_record :: SeenPost where
  "ex_record =
     \<lparr>post_id = ''p1'', content_hash = ''h1'', first_seen_at = 10, last_seen_at = 10,
      seen_count = 1\<rparr>"

text \<open>An endpoint state after five server errors, and a handler that holds it.\<close>

definition ex_failing_state :: BackoffState where
  "ex_failing_state =
     \<lparr>error_count = 5, last_error_at = Some 1000, last_error_type = Some SERVER_ERROR,
      retry_after = Some 1030, consecutive_successes = 0\<rparr>"

definition ex_handler :: BackoffHandler where
  "ex_handler =
     \<lparr>backoff_config = default_backoff_config,
      endpoint_states = [(''/posts'', ex_failing_state)]\<rparr>"

definition ex_calls :: "(real option \<times> real \<times> real \<times> real) list" where
  "ex_calls = [(None, 1, 1, 1), (None, 2, 2, 9 / 10), (Some 5, 3, 3, 11 / 10)]"


definition ex_both_blocked :: RateLimiter where
  "ex_both_blocked =
     update_from_response
       (record_requests (new_rate_limiter (default_rate_limit_config\<lparr>requests_per_minute := 2\<rparr>))
          [1950, 1955] NEW_POSTS)
       (Some 2) (Some 0) (Some 3000000000) 1956000000"

definition ex_boundary :: RateLimiter where
  "ex_boundary =
     record_requests (new_rate_limiter (default_rate_limit_config\<lparr>requests_per_minute := 1\<rparr>))
       [1000] RESERVE"

definition ex_rounding :: RateLimiter where
  "ex_rounding =
     record_requests (new_rate_limiter (default_rate_limit_config\<lparr>requests_per_minute := 1\<rparr>))
       [2 ^ 31 - 60 + 1 / 2 ^ 22] RESERVE"

text \<open>
  Histories of a tracker with a time-to-live of 100: two identities marked with the
  same fingerprint, with the tracker they lead to; and a history in which a
  fingerprint is supplied again on a repeat observation, and used again once the
  cleanup has dropped the record that carried it, with the tracker it leads to.
\<close>

definition ex_shared_ops :: "tracker_op list" where
  "ex_shared_ops = [MarkSeen 1 ''p1'' ''h'', MarkSeen 2 ''p2'' ''h'']"

definition ex_shared :: DeduplicationTracker where
  "ex_shared =
     \<lparr>ttl = 100,
      by_id = [(''p1'', \<lparr>post_id = ''p1'', content_hash = ''h'', first_seen_at = 1,
                         last_seen_at = 1, seen_count = 1\<rparr>),
               (''p2'', \<lparr>post_id = ''p2'', content_hash = ''h'', first_seen_at = 2,
                         last_seen_at = 2, seen_count = 1\<rparr>)],
      by_hash = [(''h'', ''p2'')]\<rparr>"

definition ex_reuse_ops :: "tracker_op list" where
  "ex_reuse_ops =
     [MarkSeen 1 ''p1'' ''h1'', MarkSeen 2 ''p2'' ''h2'', MarkSeen 3 ''p2'' ''h1'',
      MarkSeen 120 ''p2'' ''h2'', CleanupExpired 110, MarkSeen 130 ''p3'' ''h1'']"

definition ex_reuse :: DeduplicationTracker where
  "ex_reuse =
     \<lparr>ttl = 100,
      by_id = [(''p2'', \<lparr>post_id = ''p2'', content_hash = ''h2'', first_seen_at = 2,
                         last_seen_at = 120, seen_count = 3\<rparr>),
               (''p3'', \<lparr>post_id = ''p3'', content_hash = ''h1'', first_seen_at = 130,
                         last_seen_at = 130, seen_count = 1\<rparr>)],
      by_hash = [(''h2'', ''p2''), (''h1'', ''p3'')]\<rparr>"

text \<open>
  A tracker with a time-to-live of 800000 days that has seen one post, at
  \<open>2026-11-04 00:00:00\<close>.
\<close>

definition ex_long_ttl :: DeduplicationTracker where
  "ex_long_ttl = fst (mark_seen 1793750400000000 (new_tracker 69120000000000000) ''p1'' ''h1'')"

text \<open>An activity tracker with two samples of 100 items, one minute apart.\<close>

definition ex_busy_tracker :: ActivityTracker where
  "ex_busy_tracker = \<lparr>window_size = hours 1, samples = [(0, 100), (60000000, 100)]\<rparr>"

section \<open>Properties of the deduplication tracker\<close>

lemma ex_tracker_eq:
  "ex_tracker = \<lparr>ttl = 100, by_id = [(''p1'', ex_record)], by_hash = [(''h1'', ''p1'')]\<rparr>"
  by (simp add: ex_tracker_def ex_record_def mark_seen_def new_tracker_def Let_def)

subsection \<open>Repeat observations\<close>

text \<open>
  C9: marking an identity that is already present changes only the last-seen time and
  the occurrence count of its record. The fingerprint index, the record's stored
  fingerprint and every other record stay as they were, so a fingerprint that was
  unknown before the call is still unknown after it.
\<close>

theorem mark_seen_existing_frame:
  "map_of (by_id t) pid = Some r \<Longrightarrow>
     mark_seen now t pid h =
       (t\<lparr>by_id := AList.update pid
                 (r\<lparr>last_seen_at := now, seen_count := seen_count r + 1\<rparr>) (by_id t)\<rparr>,
        r\<lparr>last_seen_at := now, seen_count := seen_count r + 1\<rparr>)
     \<and> by_hash (fst (mark_seen now t pid h)) = by_hash t
     \<and> (\<forall>h'. has_hash (fst (mark_seen now t pid h)) h' = has_hash t h')
     \<and> (\<not> has_hash t h \<longrightarrow> \<not> has_hash (fst (mark_seen now t pid h)) h)
     \<and> content_hash (snd (mark_seen now t pid h)) = content_hash r
     \<and> get_by_id (fst (mark_seen now t pid h)) pid =
          Some (r\<lparr>last_seen_at := now, seen_count := seen_count r + 1\<rparr>)
     \<and> (\<forall>q. q \<noteq> pid \<longrightarrow> get_by_id (fst (mark_seen now t pid h)) q = get_by_id t q)"
  by (simp add: mark_seen_def has_hash_def get_by_id_def Let_def AList.update_conv')

theorem mark_seen_existing_frame_witness:
  "map_of (by_id ex_tracker) ''p1'' = Some ex_record
   \<and> \<not> has_hash ex_tracker ''h2''
   \<and> \<not> has_hash (fst (mark_seen 20 ex_tracker ''p1'' ''h2'')) ''h2''
   \<and> by_hash (fst (mark_seen 20 ex_tracker ''p1'' ''h2'')) = by_hash ex_tracker
   \<and> content_hash (snd (mark_seen 20 ex_tracker ''p1'' ''h2'')) = content_hash ex_record
   \<and> get_by_id (fst (mark_seen 20 ex_tracker ''p1'' ''h2'')) ''p1'' =
        Some (ex_record\<lparr>last_seen_at := 20, seen_count := seen_count ex_record + 1\<rparr>)"
proof -
  have h: "map_of (by_id ex_tracker) ''p1'' = Some ex_record"
    by (simp add: ex_tracker_eq)
  have n: "\<not> has_hash ex_tracker ''h2''"
    by (simp add: ex_tracker_eq has_hash_def)
  note frame = mark_seen_existing_frame [OF h, of 20 "''h2''"]
  from frame h n show ?thesis
    by blast
qed

subsection \<open>Consistency of the two indexes\<close>

lemma index_inv_new: "index_inv (new_tracker ttl_us)"
  by (simp add: index_inv_def new_tracker_def)

lemma cover_inv_new: "cover_inv (new_tracker ttl_us)"
  by (simp add: cover_inv_def new_tracker_def)

lemma cover_inv_covered: "index_inv t \<Longrightarrow> cover_inv t = id_index_covered t"
  by (fastforce simp add: index_inv_def cover_inv_def id_index_covered_def)

lemma index_inv_sound: "index_inv t \<Longrightarrow> hash_index_sound t"
  by (fastforce simp add: index_inv_def hash_index_sound_def)

lemma mark_seen_index_inv:
  assumes "index_inv t"
  shows "index_inv (fst (mark_seen now t pid h))"
proof (cases "map_of (by_id t) pid")
  case None
  have "p \<noteq> pid" if "map_of (by_hash t) h' = Some p" for h' p
    using that assms None unfolding index_inv_def by fastforce
  with None assms show ?thesis
    by (auto simp add: index_inv_def mark_seen_def Let_def AList.update_conv' AList.distinct_update
          simp del: map_of_eq_Some_iff)
next
  case (Some r)
  have "content_hash r = h'" if "map_of (by_hash t) h' = Some pid" for h'
    using that assms Some unfolding index_inv_def by fastforce
  with Some assms show ?thesis
    by (auto simp add: index_inv_def mark_seen_def Let_def AList.update_conv' AList.distinct_update
          simp del: map_of_eq_Some_iff)
qed

text \<open>
  A \<open>mark_seen\<close> keeps every stored record under its fingerprint when the identity is
  known or the fingerprint is not in the fingerprint index; when the identity is new and
  the fingerprint is in the index, the record that carried it is no longer found.
\<close>

lemma mark_seen_cover_inv:
  assumes "cover_inv t" and "has_id t pid \<or> \<not> has_hash t h"
  shows "cover_inv (fst (mark_seen now t pid h))"
proof (cases "map_of (by_id t) pid")
  case None
  with assms(2) have free: "map_of (by_hash t) h = None"
    by (simp add: has_id_def has_hash_def)
  have other: "content_hash r \<noteq> h" if "map_of (by_id t) p = Some r" for p r
  proof
    assume "content_hash r = h"
    with that assms(1) have "map_of (by_hash t) h = Some p"
      unfolding cover_inv_def by blast
    with free show False
      by simp
  qed
  show ?thesis
    using None assms(1) other
    by (auto simp add: cover_inv_def mark_seen_def Let_def AList.update_conv')
next
  case (Some r)
  with assms(1) show ?thesis
    by (auto simp add: cover_inv_def mark_seen_def Let_def AList.update_conv')
qed

lemma mark_seen_uncovers:
  assumes "index_inv t" and "\<not> has_id t pid" and "has_hash t h"
  shows "\<not> cover_inv (fst (mark_seen now t pid h))"
proof
  assume c: "cover_inv (fst (mark_seen now t pid h))"
  from assms(2) have n: "map_of (by_id t) pid = None"
    by (simp add: has_id_def)
  from assms(3) obtain p where p: "map_of (by_hash t) h = Some p"
    by (auto simp add: has_hash_def)
  with assms(1) obtain r where r: "map_of (by_id t) p = Some r" "content_hash r = h"
    unfolding index_inv_def by blast
  with n have ne: "p \<noteq> pid"
    by auto
  have "map_of (by_id (fst (mark_seen now t pid h))) p = Some r"
    using n ne r(1) by (simp add: mark_seen_def Let_def AList.update_conv')
  with c have "map_of (by_hash (fst (mark_seen now t pid h))) (content_hash r) = Some p"
    unfolding cover_inv_def by blast
  then show False
    using n ne r(2) by (simp add: mark_seen_def Let_def AList.update_conv')
qed

text \<open>One round of the removal loop of \<open>cleanup_expired\<close>.\<close>

lemma pop_one_index_inv:
  assumes "index_inv t" and "map_of (by_id t) pid = Some r"
  shows "index_inv (t\<lparr>by_id := AList.delete pid (by_id t),
                      by_hash := AList.delete (content_hash r) (by_hash t)\<rparr>)"
proof -
  have "p \<noteq> pid" if "map_of (by_hash t) h = Some p" and "h \<noteq> content_hash r" for h p
    using that assms unfolding index_inv_def by fastforce
  with assms show ?thesis
    by (auto simp add: index_inv_def AList.delete_conv' AList.distinct_delete
          simp del: map_of_eq_Some_iff)
qed

lemma pop_one_cover_inv:
  assumes "cover_inv t" and "map_of (by_id t) pid = Some r"
  shows "cover_inv (t\<lparr>by_id := AList.delete pid (by_id t),
                      by_hash := AList.delete (content_hash r) (by_hash t)\<rparr>)"
proof -
  have "content_hash r' \<noteq> content_hash r" if "map_of (by_id t) p = Some r'" and "p \<noteq> pid" for p r'
  proof
    assume e: "content_hash r' = content_hash r"
    from that(1) assms(1) have "map_of (by_hash t) (content_hash r') = Some p"
      unfolding cover_inv_def by blast
    moreover from assms have "map_of (by_hash t) (content_hash r) = Some pid"
      unfolding cover_inv_def by blast
    ultimately show False
      using that(2) e by simp
  qed
  with assms show ?thesis
    by (auto simp add: cover_inv_def AList.delete_conv')
qed

lemma pop_expired_ok:
  assumes "index_inv t" and "distinct pids" and "\<forall>p \<in> set pids. map_of (by_id t) p \<noteq> None"
  shows "\<exists>t' n. pop_expired pids t removed = (t', Inr n) \<and> index_inv t'
            \<and> (cover_inv t \<longrightarrow> cover_inv t')"
  using assms
proof (induction pids arbitrary: t removed)
  case Nil
  then show ?case by simp
next
  case (Cons pid pids)
  from Cons.prems(3) obtain r where r: "map_of (by_id t) pid = Some r"
    by auto
  let ?t = "t\<lparr>by_id := AList.delete pid (by_id t),
               by_hash := AList.delete (content_hash r) (by_hash t)\<rparr>"
  have i: "index_inv ?t"
    using Cons.prems(1) r by (rule pop_one_index_inv)
  have d: "distinct pids"
    using Cons.prems(2) by simp
  have m: "\<forall>p \<in> set pids. map_of (by_id ?t) p \<noteq> None"
    using Cons.prems(2,3) by (auto simp add: AList.delete_conv')
  from Cons.IH [OF i d m, of "removed + 1"] obtain t' n where
    res: "pop_expired pids ?t (removed + 1) = (t', Inr n)" and i': "index_inv t'"
    and c': "cover_inv ?t \<longrightarrow> cover_inv t'"
    by blast
  have "cover_inv t \<longrightarrow> cover_inv t'"
    using c' pop_one_cover_inv [OF _ r] by blast
  with res i' r show ?case
    by simp
qed

lemma expired_ids_present:
  assumes "distinct (map fst (by_id t))"
  shows "distinct (expired_ids cutoff t)"
    and "\<forall>p \<in> set (expired_ids cutoff t). map_of (by_id t) p \<noteq> None"
proof -
  show "distinct (expired_ids cutoff t)"
    using assms by (simp add: expired_ids_def distinct_map_filter)
  show "\<forall>p \<in> set (expired_ids cutoff t). map_of (by_id t) p \<noteq> None"
  proof
    fix p
    assume "p \<in> set (expired_ids cutoff t)"
    then obtain r where "(p, r) \<in> set (by_id t)"
      by (auto simp add: expired_ids_def)
    then show "map_of (by_id t) p \<noteq> None"
      using weak_map_of_SomeI by fastforce
  qed
qed

text \<open>
  \<open>cleanup_expired\<close> never raises \<open>KeyError\<close>: it either raises \<open>OverflowError\<close> for the
  cutoff and leaves the tracker as it is, or returns a count.
\<close>

lemma cleanup_expired_ok:
  assumes "index_inv t"
  shows "\<exists>t' res. cleanup_expired now t = (t', res) \<and> res \<noteq> Inl KeyError
           \<and> index_inv t' \<and> (cover_inv t \<longrightarrow> cover_inv t')"
proof (cases "datetime_sub now (ttl t)")
  case (Inl e)
  then have "e = OverflowError"
    by (auto simp add: datetime_sub_def split: if_splits)
  with Inl assms show ?thesis
    by (simp add: cleanup_expired_def)
next
  case (Inr cutoff)
  from assms have d: "distinct (map fst (by_id t))"
    by (simp add: index_inv_def)
  from pop_expired_ok [OF assms expired_ids_present [OF d], of cutoff 0] obtain t' n where
    "pop_expired (expired_ids cutoff t) t 0 = (t', Inr n)" "index_inv t'"
    "cover_inv t \<longrightarrow> cover_inv t'"
    by blast
  with Inr show ?thesis
    by (simp add: cleanup_expired_def)
qed

lemma apply_op_ok:
  assumes "index_inv t"
  shows "index_inv (fst (apply_op t x))" and "snd (apply_op t x) \<noteq> Some KeyError"
    and "cover_inv t \<Longrightarrow> fresh_fingerprints t [x] \<Longrightarrow> cover_inv (fst (apply_op t x))"
proof -
  show "index_inv (fst (apply_op t x))"
  proof (cases x)
    case (MarkSeen now pid h)
    with assms show ?thesis
      by (simp add: mark_seen_index_inv)
  next
    case (CleanupExpired now)
    with cleanup_expired_ok [OF assms, of now] show ?thesis
      by (auto split: sum.splits)
  qed
  show "snd (apply_op t x) \<noteq> Some KeyError"
  proof (cases x)
    case (MarkSeen now pid h)
    then show ?thesis by simp
  next
    case (CleanupExpired now)
    with cleanup_expired_ok [OF assms, of now] show ?thesis
      by (auto split: sum.splits)
  qed
  show "cover_inv (fst (apply_op t x))" if "cover_inv t" and "fresh_fingerprints t [x]"
  proof (cases x)
    case (MarkSeen now pid h)
    with that show ?thesis
      by (simp add: mark_seen_cover_inv)
  next
    case (CleanupExpired now)
    with cleanup_expired_ok [OF assms, of now] that(1) show ?thesis
      by (auto split: sum.splits)
  qed
qed

lemma run_trace_sound:
  assumes "index_inv t"
  shows "\<forall>(t', e) \<in> set (run_trace t ops). index_inv t' \<and> e \<noteq> Some KeyError"
  using assms
proof (induction ops arbitrary: t)
  case Nil
  show ?case by simp
next
  case (Cons x ops)
  from apply_op_ok(1,2) [OF Cons.prems, of x] Cons.IH [of "fst (apply_op t x)"]
  show ?case
    by (cases "apply_op t x") auto
qed

lemma run_trace_covered:
  assumes "index_inv t" and "cover_inv t"
  shows "(\<forall>(t', e) \<in> set (run_trace t ops). id_index_covered t') = fresh_fingerprints t ops"
  using assms
proof (induction ops arbitrary: t)
  case Nil
  show ?case by simp
next
  case (Cons x ops)
  let ?t = "fst (apply_op t x)"
  have i: "index_inv ?t"
    using Cons.prems(1) by (rule apply_op_ok(1))
  have head: "(\<forall>(t', e) \<in> set (run_trace t (x # ops)). id_index_covered t')
                = (cover_inv ?t \<and> (\<forall>(t', e) \<in> set (run_trace ?t ops). id_index_covered t'))"
    using cover_inv_covered [OF i] by (cases "apply_op t x") auto
  have step: "cover_inv ?t = fresh_fingerprints t [x]"
  proof (cases x)
    case (MarkSeen now pid h)
    show ?thesis
    proof (cases "has_id t pid \<or> \<not> has_hash t h")
      case True
      with Cons.prems(2) MarkSeen show ?thesis
        by (simp add: mark_seen_cover_inv)
    next
      case False
      with Cons.prems(1) MarkSeen show ?thesis
        by (simp add: mark_seen_uncovers)
    qed
  next
    case (CleanupExpired now)
    with apply_op_ok(3) [OF Cons.prems(1), of x] Cons.prems(2) show ?thesis
      by simp
  qed
  have split: "fresh_fingerprints t (x # ops) = (fresh_fingerprints t [x] \<and> fresh_fingerprints ?t ops)"
    by (cases x) auto
  show ?case
  proof (cases "cover_inv ?t")
    case True
    with Cons.IH [OF i True] head step split show ?thesis
      by simp
  next
    case False
    with head step split show ?thesis
      by simp
  qed
qed

text \<open>
  A cleanup whose cutoff leaves the range of \<open>datetime\<close> raises \<open>OverflowError\<close> and
  changes nothing: with a time-to-live of 800000 days the cutoff lies before year 1.
\<close>

lemma cleanup_expired_overflow:
  "cleanup_expired 1793750400000000 ex_long_ttl = (ex_long_ttl, Inl OverflowError)"
  by (simp add: cleanup_expired_def datetime_sub_def datetime_min_def ex_long_ttl_def
        mark_seen_def new_tracker_def Let_def)

lemma ex_shared_run:
  "map fst (run_trace (new_tracker 100) ex_shared_ops) =
     [fst (mark_seen 1 (new_tracker 100) ''p1'' ''h''), ex_shared]"
  by (simp add: ex_shared_ops_def ex_shared_def new_tracker_def mark_seen_def Let_def)

lemma ex_reuse_run:
  "(ex_reuse, None) \<in> set (run_trace (new_tracker 100) ex_reuse_ops)"
  by (simp add: ex_reuse_ops_def ex_reuse_def new_tracker_def mark_seen_def Let_def
        cleanup_expired_def datetime_sub_def datetime_min_def datetime_max_def expired_ids_def)

text \<open>
  C1, as stated, fails: after \<open>mark_seen\<close> of two identities with the same fingerprint
  the fingerprint index points at the second identity only, and the record of the
  first, which is stored in the identity index, is not reachable from the fingerprint
  index through its fingerprint.
\<close>

theorem shared_fingerprint_uncovered:
  "fst (last (run_trace (new_tracker 100) ex_shared_ops)) = ex_shared
   \<and> get_by_id ex_shared ''p1'' \<noteq> None
   \<and> map_of (by_hash ex_shared) ''h'' = Some ''p2''
   \<and> \<not> id_index_covered ex_shared"
  by (simp add: ex_shared_ops_def ex_shared_def new_tracker_def mark_seen_def Let_def
        id_index_covered_def get_by_id_def)

text \<open>
  C1, amended: for every sequence of \<open>mark_seen\<close> and \<open>cleanup_expired\<close> operations
  from an empty tracker, after every operation every identity the fingerprint index
  points at is stored in the identity index, and no operation raises \<open>KeyError\<close> (a
  cleanup whose cutoff leaves the range of \<open>datetime\<close> raises \<open>OverflowError\<close> and
  changes nothing). Every record stored in the identity index is reachable from the
  fingerprint index through its stored fingerprint after every operation if and only
  if no \<open>mark_seen\<close> of the sequence stores a new identity under a fingerprint that the
  fingerprint index holds at that moment.
\<close>

theorem indexes_consistent:
  "(\<forall>(t, e) \<in> set (run_trace (new_tracker ttl_us) ops). hash_index_sound t \<and> e \<noteq> Some KeyError)
   \<and> ((\<forall>(t, e) \<in> set (run_trace (new_tracker ttl_us) ops). id_index_covered t)
        = fresh_fingerprints (new_tracker ttl_us) ops)"
  using run_trace_sound [OF index_inv_new, of ttl_us ops]
    run_trace_covered [OF index_inv_new cover_inv_new, of ttl_us ops] index_inv_sound
  by fastforce

theorem indexes_consistent_witness:
  "fresh_fingerprints (new_tracker 100) ex_reuse_ops
   \<and> (ex_reuse, None) \<in> set (run_trace (new_tracker 100) ex_reuse_ops)
   \<and> hash_index_sound ex_reuse
   \<and> id_index_covered ex_reuse"
proof -
  have f: "fresh_fingerprints (new_tracker 100) ex_reuse_ops"
    by (simp add: ex_reuse_ops_def new_tracker_def mark_seen_def Let_def has_id_def has_hash_def
          cleanup_expired_def datetime_sub_def datetime_min_def datetime_max_def expired_ids_def)
  note m = ex_reuse_run
  from indexes_consistent [of 100 ex_reuse_ops] f m
  have "hash_index_sound ex_reuse" and "id_index_covered ex_reuse"
    by fastforce+
  with f m show ?thesis
    by blast
qed

section \<open>Properties of the backoff handler\<close>

subsection \<open>Successes\<close>

text \<open>
  The success counter starts at 0 and is only incremented or set to 0, so it is never
  negative in a state that the operations of \<open>BackoffState\<close> produce.
\<close>

lemma successes_nonneg_step:
  "0 \<le> consecutive_successes st \<Longrightarrow> 0 \<le> consecutive_successes (apply_state_op st x)"
  by (cases x)
     (simp_all add: state_record_error_def state_record_success_def state_reset_def
        new_backoff_state_def Let_def)

lemma reachable_successes_nonneg:
  "0 \<le> consecutive_successes st \<Longrightarrow> 0 \<le> consecutive_successes (foldl apply_state_op st ops)"
  by (induction ops arbitrary: st) (simp_all add: successes_nonneg_step)

text \<open>
  C8: whatever the error count, the last error classification and the retry-after
  time of an endpoint state are, three \<open>record_success\<close> calls in a row leave the error
  count at 0 and clear both the classification and the retry-after time. The success
  counter of the state is not negative, as in every state the operations produce.
\<close>

theorem three_successes_reset:
  "0 \<le> consecutive_successes st \<Longrightarrow>
     error_count (state_record_success (state_record_success (state_record_success st))) = 0
     \<and> last_error_type (state_record_success (state_record_success (state_record_success st))) = None
     \<and> retry_after (state_record_success (state_record_success (state_record_success st))) = None"
  by (simp add: state_record_success_def Let_def)

theorem three_successes_reset_witness:
  "0 \<le> consecutive_successes ex_failing_state
   \<and> error_count ex_failing_state = 5
   \<and> error_count (state_record_success (state_record_success (state_record_success ex_failing_state))) = 0
   \<and> last_error_type (state_record_success (state_record_success (state_record_success ex_failing_state))) = None
   \<and> retry_after (state_record_success (state_record_success (state_record_success ex_failing_state))) = None"
proof -
  have h: "0 \<le> consecutive_successes ex_failing_state"
    by (simp add: ex_failing_state_def)
  have c: "error_count ex_failing_state = 5"
    by (simp add: ex_failing_state_def)
  from three_successes_reset [OF h] h c show ?thesis
    by blast
qed

subsection \<open>Delays\<close>

lemma get_state_config: "backoff_config (fst (get_state h e)) = backoff_config h"
  by (simp add: get_state_def split: option.splits)

lemma get_state_config_pair: "get_state h e = (h1, st) \<Longrightarrow> backoff_config h1 = backoff_config h"
  using get_state_config [of h e] by simp

lemma get_state_lookup:
  "map_of (endpoint_states h) e = Some st \<Longrightarrow> get_state h e = (h, st)"
  by (simp add: get_state_def)

lemma calculate_delay_known:
  "map_of (endpoint_states h) e = Some st \<Longrightarrow>
     calculate_delay h e SERVER_ERROR None j =
       (h, min (unjittered_delay (backoff_config h) st SERVER_ERROR * j) (max_delay (backoff_config h)))"
  by (simp add: calculate_delay_def get_state_lookup apply_jitter_def)

lemma calculate_delay_handler:
  "map_of (endpoint_states h) e = Some st \<Longrightarrow> fst (calculate_delay h e et ra j) = h"
  by (simp add: calculate_delay_def get_state_lookup split: option.splits)

lemma record_error_handler:
  "fst (record_error h e et ra n1 n2 j) =
     (fst (get_state h e))\<lparr>endpoint_states :=
        AList.update e (state_record_error (snd (get_state h e)) et ra n1 n2)
          (endpoint_states (fst (get_state h e)))\<rparr>"
  by (simp add: record_error_def Let_def calculate_delay_handler AList.update_conv'
        split: prod.splits)

lemma record_error_state:
  "map_of (endpoint_states (fst (record_error h e et ra n1 n2 j))) e =
     Some (state_record_error (snd (get_state h e)) et ra n1 n2)"
  by (simp add: record_error_handler AList.update_conv')

lemma record_error_config:
  "backoff_config (fst (record_error h e et ra n1 n2 j)) = backoff_config h"
  by (simp add: record_error_handler get_state_config)

lemma record_error_delay:
  "snd (record_error h e SERVER_ERROR None n1 n2 j) =
     min (unjittered_delay (backoff_config h)
            (state_record_error (snd (get_state h e)) SERVER_ERROR None n1 n2) SERVER_ERROR * j)
         (max_delay (backoff_config h))"
proof (cases "get_state h e")
  case (Pair h1 st)
  then show ?thesis
    by (simp add: record_error_def Let_def calculate_delay_known AList.update_conv'
          get_state_config_pair)
qed

lemma unjittered_three:
  "base_delay cfg = 1 \<Longrightarrow> max_exponent cfg = 8 \<Longrightarrow> error_count st = 3 \<Longrightarrow>
     unjittered_delay cfg st SERVER_ERROR = 8"
  by (simp add: unjittered_delay_def pow2_def Let_def eval_nat_numeral)

lemma record_server_errors_snoc:
  "record_server_errors h e (calls @ [(ra, n1, n2, j)]) =
     fst (record_error (record_server_errors h e calls) e SERVER_ERROR ra n1 n2 j)"
  by (simp add: record_server_errors_def)

lemma record_server_errors_config:
  "backoff_config (record_server_errors h e calls) = backoff_config h"
  by (induction calls rule: rev_induct)
     (auto simp add: record_server_errors_snoc record_error_config, simp add: record_server_errors_def)

lemma record_server_errors_count:
  "error_count (snd (get_state (record_server_errors h e calls) e)) =
     error_count (snd (get_state h e)) + int (length calls)"
proof (induction calls rule: rev_induct)
  case Nil
  show ?case by (simp add: record_server_errors_def)
next
  case (snoc c calls)
  obtain ra n1 n2 j where c: "c = (ra, n1, n2, j)"
    by (cases c) auto
  show ?case
    using snoc
    by (simp add: c record_server_errors_snoc get_state_lookup [OF record_error_state]
          state_record_error_def)
qed

lemma record_server_errors_known:
  "calls \<noteq> [] \<Longrightarrow> map_of (endpoint_states (record_server_errors h e calls)) e \<noteq> None"
proof (induction calls rule: rev_induct)
  case Nil
  then show ?case by simp
next
  case (snoc c calls)
  obtain ra n1 n2 j where c: "c = (ra, n1, n2, j)"
    by (cases c) auto
  show ?case
    by (simp add: c record_server_errors_snoc record_error_state)
qed

text \<open>
  C4: for a client error \<open>calculate_delay\<close> returns 0 and \<open>should_retry\<close> answers no,
  whatever the endpoint, its state, the retry-after value and the jitter are. For any
  other error type a retry-after of 30 seconds gives exactly \<open>min 30 max_delay\<close>, and
  any positive retry-after gives itself capped at \<open>max_delay\<close>: the jitter and the
  error count play no part.
\<close>

theorem client_error_and_retry_after:
  "snd (calculate_delay h endpoint CLIENT_ERROR retry_after_seconds jitter) = 0
   \<and> \<not> snd (should_retry h endpoint CLIENT_ERROR)
   \<and> (error_type \<noteq> CLIENT_ERROR \<longrightarrow>
        snd (calculate_delay h endpoint error_type (Some 30) jitter)
          = min 30 (max_delay (backoff_config h)))
   \<and> (error_type \<noteq> CLIENT_ERROR \<and> 0 < ra \<longrightarrow>
        snd (calculate_delay h endpoint error_type (Some ra) jitter)
          = min ra (max_delay (backoff_config h)))"
  by (simp add: calculate_delay_def should_retry_def get_state_def split: option.splits prod.splits)

theorem client_error_and_retry_after_witness:
  "SERVER_ERROR \<noteq> CLIENT_ERROR
   \<and> snd (calculate_delay ex_handler ''/posts'' CLIENT_ERROR (Some 30) (12 / 10)) = 0
   \<and> \<not> snd (should_retry ex_handler ''/posts'' CLIENT_ERROR)
   \<and> snd (calculate_delay ex_handler ''/posts'' SERVER_ERROR (Some 30) (12 / 10)) = 30"
proof -
  have m: "max_delay (backoff_config ex_handler) = 300"
    by (simp add: ex_handler_def default_backoff_config_def)
  from client_error_and_retry_after
         [of ex_handler "''/posts''" "Some 30" "12 / 10" SERVER_ERROR] m
  show ?thesis
    by simp
qed

text \<open>
  C7: with a base delay of 1 second and a maximum exponent of 8, after three recorded
  server errors for an endpoint that had none, the error count is 3, the delay before
  jitter is \<open>2 ^ 3 = 8\<close> seconds, and for every jitter factor between 0.8 and 1.2 the
  delay that \<open>calculate_delay\<close> returns lies between 6.4 and 9.6 seconds. The maximum
  delay is at least 9.6 seconds (300 by default), so the cap does not cut in.
\<close>

theorem three_server_errors_delay:
  assumes "base_delay (backoff_config h) = 1"
    and "max_exponent (backoff_config h) = 8"
    and "96 / 10 \<le> max_delay (backoff_config h)"
    and "error_count (snd (get_state h e)) = 0"
    and "length calls = 3"
  shows "\<exists>st. map_of (endpoint_states (record_server_errors h e calls)) e = Some st
           \<and> error_count st = 3
           \<and> unjittered_delay (backoff_config (record_server_errors h e calls)) st SERVER_ERROR = 8
           \<and> snd (calculate_delay (record_server_errors h e calls) e SERVER_ERROR None 1) = 8
           \<and> (\<forall>j. 8 / 10 \<le> j \<and> j \<le> 12 / 10 \<longrightarrow>
                  64 / 10 \<le> snd (calculate_delay (record_server_errors h e calls) e SERVER_ERROR None j)
                  \<and> snd (calculate_delay (record_server_errors h e calls) e SERVER_ERROR None j) \<le> 96 / 10)"
proof -
  let ?h3 = "record_server_errors h e calls"
  have "calls \<noteq> []"
    using assms(5) by auto
  then obtain st3 where s3: "map_of (endpoint_states ?h3) e = Some st3"
    using record_server_errors_known [of calls h e] by auto
  have c3: "error_count st3 = 3"
    using record_server_errors_count [of h e calls] assms(4,5)
    by (simp add: get_state_lookup [OF s3])
  have cfg: "backoff_config ?h3 = backoff_config h"
    by (rule record_server_errors_config)
  have u: "unjittered_delay (backoff_config ?h3) st3 SERVER_ERROR = 8"
    using assms(1,2) c3 by (simp add: cfg unjittered_three)
  have d: "snd (calculate_delay ?h3 e SERVER_ERROR None j) = min (8 * j) (max_delay (backoff_config h))" for j
    using u by (simp add: calculate_delay_known [OF s3] cfg)
  have one: "snd (calculate_delay ?h3 e SERVER_ERROR None 1) = 8"
    using assms(3) by (simp add: d)
  have rng: "64 / 10 \<le> snd (calculate_delay ?h3 e SERVER_ERROR None j)
             \<and> snd (calculate_delay ?h3 e SERVER_ERROR None j) \<le> 96 / 10"
    if "8 / 10 \<le> j \<and> j \<le> 12 / 10" for j
    using that assms(3) by (simp add: d min_def)
  from s3 c3 u one rng show ?thesis
    by blast
qed

theorem three_server_errors_delay_witness:
  "base_delay (backoff_config (new_backoff_handler default_backoff_config)) = 1
   \<and> max_exponent (backoff_config (new_backoff_handler default_backoff_config)) = 8
   \<and> 96 / 10 \<le> max_delay (backoff_config (new_backoff_handler default_backoff_config))
   \<and> error_count (snd (get_state (new_backoff_handler default_backoff_config) ''/posts'')) = 0
   \<and> length ex_calls = 3
   \<and> snd (calculate_delay
             (record_server_errors (new_backoff_handler default_backoff_config) ''/posts'' ex_calls)
             ''/posts'' SERVER_ERROR None 1) = 8
   \<and> 64 / 10 \<le> snd (calculate_delay
             (record_server_errors (new_backoff_handler default_backoff_config) ''/posts'' ex_calls)
             ''/posts'' SERVER_ERROR None (8 / 10))
   \<and> snd (calculate_delay
             (record_server_errors (new_backoff_handler default_backoff_config) ''/posts'' ex_calls)
             ''/posts'' SERVER_ERROR None (12 / 10)) \<le> 96 / 10"
proof -
  let ?h = "new_backoff_handler default_backoff_config"
  have a: "base_delay (backoff_config ?h) = 1"
    and b: "max_exponent (backoff_config ?h) = 8"
    and c: "96 / 10 \<le> max_delay (backoff_config ?h)"
    by (simp_all add: new_backoff_handler_def default_backoff_config_def)
  have d: "error_count (snd (get_state ?h ''/posts'')) = 0"
    by (simp add: get_state_def new_backoff_handler_def new_backoff_state_def)
  have e: "length ex_calls = 3"
    by (simp add: ex_calls_def)
  from three_server_errors_delay [OF a b c d e] obtain st where
    one: "snd (calculate_delay (record_server_errors ?h ''/posts'' ex_calls) ''/posts'' SERVER_ERROR None 1) = 8"
    and rng: "\<forall>j. 8 / 10 \<le> j \<and> j \<le> 12 / 10 \<longrightarrow>
                  64 / 10 \<le> snd (calculate_delay (record_server_errors ?h ''/posts'' ex_calls) ''/posts'' SERVER_ERROR None j)
                  \<and> snd (calculate_delay (record_server_errors ?h ''/posts'' ex_calls) ''/posts'' SERVER_ERROR None j) \<le> 96 / 10"
    by blast
  have lo: "64 / 10 \<le> snd (calculate_delay (record_server_errors ?h ''/posts'' ex_calls) ''/posts'' SERVER_ERROR None (8 / 10))"
    using rng by simp
  have hi: "snd (calculate_delay (record_server_errors ?h ''/posts'' ex_calls) ''/posts'' SERVER_ERROR None (12 / 10)) \<le> 96 / 10"
    using rng by simp
  from a b c d e one lo hi show ?thesis
    by blast
qed

section \<open>Properties of the rate limiter\<close>

subsection \<open>Float rounding\<close>

text \<open>
  Whole numbers below \<open>2 ^ 53\<close> in magnitude are floats, so rounding leaves them as
  they are; \<open>2 ^ 31 + 2 ^ -22\<close> lies halfway between two floats and rounds to \<open>2 ^ 31\<close>.
\<close>

lemma round_half_even_int: "round_half_even (real_of_int m) = m"
  by (simp add: round_half_even_def)

lemma float_exponent_bounds:
  assumes "x \<noteq> 0"
  shows "2 powr real_of_int \<lfloor>log 2 \<bar>x\<bar>\<rfloor> \<le> \<bar>x\<bar>"
    and "\<bar>x\<bar> < 2 powr real_of_int (\<lfloor>log 2 \<bar>x\<bar>\<rfloor> + 1)"
  using assms floor_log_eq_powr_iff [of "\<bar>x\<bar>" 2 "\<lfloor>log 2 \<bar>x\<bar>\<rfloor>"] by simp_all

lemma float_exponent_eq:
  "2 ^ k \<le> \<bar>x\<bar> \<Longrightarrow> \<bar>x\<bar> < 2 ^ Suc k \<Longrightarrow> \<lfloor>log 2 \<bar>x\<bar>\<rfloor> = int k"
proof -
  assume a: "2 ^ k \<le> \<bar>x\<bar>" and b: "\<bar>x\<bar> < 2 ^ Suc k"
  have pos: "0 < \<bar>x\<bar>"
    using a by (smt (verit) zero_less_power)
  have "2 powr real_of_int (int k) \<le> \<bar>x\<bar> \<and> \<bar>x\<bar> < 2 powr real_of_int (int k + 1)"
    using a b by (simp add: powr_realpow powr_add)
  then show ?thesis
    using floor_log_eq_powr_iff [OF pos, of 2 "int k"] by simp
qed

lemma float_round_int:
  assumes "\<bar>n\<bar> < 2 ^ 53"
  shows "float_round (real_of_int n) = real_of_int n"
proof (cases "n = 0")
  case True
  then show ?thesis by (simp add: float_round_def)
next
  case False
  let ?x = "real_of_int n"
  let ?e = "\<lfloor>log 2 \<bar>?x\<bar>\<rfloor>"
  have x0: "?x \<noteq> 0" using False by simp
  have ge1: "1 \<le> \<bar>?x\<bar>" using False by (simp add: abs_if)
  have "(0::real) \<le> log 2 \<bar>?x\<bar>"
    using ge1 by simp
  then have e0: "0 \<le> ?e" by simp
  have lt: "\<bar>?x\<bar> < 2 ^ 53"
    using assms by (metis of_int_abs of_int_less_iff of_int_numeral of_int_power)
  have e52: "?e \<le> 52"
  proof (rule ccontr)
    assume "\<not> ?e \<le> 52"
    then have "(53::real) \<le> real_of_int ?e"
      by linarith
    then have "2 powr (53::real) \<le> 2 powr real_of_int ?e"
      by (intro powr_mono) simp_all
    with float_exponent_bounds(1) [OF x0] lt show False
      by simp
  qed
  obtain k :: nat where k: "52 - ?e = int k"
    using e52 by (metis diff_ge_0_iff_ge nonneg_int_cases)
  have ulp: "float_ulp ?x = 1 / 2 ^ k"
  proof -
    have "max ?e (- 1022) - 52 = - int k"
      using e0 k by simp
    then show ?thesis
      by (simp add: float_ulp_def powr_minus powr_realpow divide_inverse)
  qed
  have "?x / float_ulp ?x = real_of_int (n * 2 ^ k)"
    by (simp add: ulp)
  then have "round_half_even (?x / float_ulp ?x) = n * 2 ^ k"
    using round_half_even_int by metis
  then show ?thesis
    using x0 by (simp add: float_round_def ulp)
qed


lemma float_round_exact:
  "x \<in> \<int> \<Longrightarrow> \<bar>x\<bar> < 2 ^ 53 \<Longrightarrow> float_round x = x"
proof -
  assume "x \<in> \<int>" and b: "\<bar>x\<bar> < 2 ^ 53"
  then obtain n where n: "x = real_of_int n"
    by (auto elim: Ints_cases)
  with b have "\<bar>n\<bar> < 2 ^ 53"
    by (metis of_int_abs of_int_less_iff of_int_numeral of_int_power)
  then show ?thesis
    unfolding n by (rule float_round_int)
qed

lemma float_round_tie: "float_round (2 ^ 31 + 1 / 2 ^ 22) = 2 ^ 31"
proof -
  let ?x = "(2::real) ^ 31 + 1 / 2 ^ 22"
  have ax: "\<bar>?x\<bar> = ?x"
    by simp
  have e: "\<lfloor>log 2 \<bar>?x\<bar>\<rfloor> = int 31"
    by (rule float_exponent_eq) (simp_all only: ax, simp_all)
  have "float_ulp ?x = 2 powr real_of_int (max (int 31) (- 1022) - 52)"
    unfolding float_ulp_def e ..
  also have "\<dots> = 2 powr (- 21)"
    by simp
  also have "\<dots> = 1 / 2 ^ 21"
    by (simp add: powr_minus_divide)
  finally have ulp: "float_ulp ?x = 1 / 2 ^ 21" .
  have q: "?x / (1 / 2 ^ 21) = real_of_int (2 ^ 52) + 1 / 2"
    by simp
  have "round_half_even (real_of_int (2 ^ 52) + 1 / 2) = 2 ^ 52"
    unfolding round_half_even_def Let_def by (simp add: floor_add_int)
  then have r: "round_half_even (?x / (1 / 2 ^ 21)) = 2 ^ 52"
    unfolding q .
  have nz: "?x \<noteq> 0"
    by simp
  have "float_round ?x = real_of_int (round_half_even (?x / float_ulp ?x)) * float_ulp ?x"
    by (simp only: float_round_def nz if_False)
  also have "\<dots> = real_of_int (2 ^ 52) * (1 / 2 ^ 21)"
    by (simp only: ulp r)
  also have "\<dots> = 2 ^ 31"
    by simp
  finally show ?thesis .
qed

lemma float_of_int_exact: "\<bar>n\<bar> < 2 ^ 53 \<Longrightarrow> float_of_int n = real_of_int n"
  by (simp add: float_of_int_def float_round_int)

lemmas float_eval = fsub_def fadd_def float_of_int_def float_round_exact

subsection \<open>The cleanup pass\<close>

lemma cleanup_config [simp]: "config (cleanup_old_requests now s) = config s"
  by (simp add: cleanup_old_requests_def Let_def)

lemma cleanup_usage [simp]: "usage (cleanup_old_requests now s) b = usage s b"
  by (simp add: cleanup_old_requests_def usage_def Let_def)

lemma cleanup_api_state [simp]: "api_state (cleanup_old_requests now s) = api_state s"
  by (simp add: cleanup_old_requests_def Let_def)

lemma api_blocks_cleanup [simp]: "api_blocks (cleanup_old_requests now s) u = api_blocks s u"
  by (simp add: api_blocks_def split: option.splits)



lemma ex_boundary_eq:
  "ex_boundary =
     \<lparr>config = default_rate_limit_config\<lparr>requests_per_minute := 1\<rparr>,
      minute_requests = [1000], hour_requests = [1000], day_requests = [1000],
      api_state = \<lparr>limit = None, remaining = None, reset_at = None, last_updated = None\<rparr>,
      budget_usage = (\<lambda>b. Some 0)(RESERVE \<mapsto> 1)\<rparr>"
  by (simp add: ex_boundary_def new_rate_limiter_def record_request_def usage_def)

lemma ex_rounding_eq:
  "ex_rounding =
     \<lparr>config = default_rate_limit_config\<lparr>requests_per_minute := 1\<rparr>,
      minute_requests = [2 ^ 31 - 60 + 1 / 2 ^ 22], hour_requests = [2 ^ 31 - 60 + 1 / 2 ^ 22],
      day_requests = [2 ^ 31 - 60 + 1 / 2 ^ 22],
      api_state = \<lparr>limit = None, remaining = None, reset_at = None, last_updated = None\<rparr>,
      budget_usage = (\<lambda>b. Some 0)(RESERVE \<mapsto> 1)\<rparr>"
  by (simp add: ex_rounding_def new_rate_limiter_def record_request_def usage_def)

lemma ex_both_blocked_eq:
  "ex_both_blocked =
     \<lparr>config = default_rate_limit_config\<lparr>requests_per_minute := 2\<rparr>,
      minute_requests = [1950, 1955], hour_requests = [1950, 1955], day_requests = [1950, 1955],
      api_state = \<lparr>limit = Some 2, remaining = Some 0, reset_at = Some 3000000000,
                   last_updated = Some 1956000000\<rparr>,
      budget_usage = (\<lambda>b. Some 0)(NEW_POSTS \<mapsto> 2)\<rparr>"
  by (simp add: ex_both_blocked_def new_rate_limiter_def record_request_def usage_def
        update_from_response_def update_from_headers_def)

subsection \<open>The delay of \<open>wait_time\<close>\<close>

text \<open>
  C2: \<open>wait_time\<close> returns the delay until the earliest blocking window's oldest
  timestamp leaves that window, or until the upstream reset, whichever is binding. The
  code breaks this: it returns at the first window that is full and never looks at the
  upstream reset then. With a limit of two requests per minute, requests at the times
  1950 and 1955, the upstream budget used up until a reset at time 3000 and the clock at
  2000, \<open>wait_time\<close> returns 10, not the binding delay of 1000, and \<open>can_request\<close> still
  refuses at the times 2011, 2500 and 2999, after the returned wait has passed.
\<close>

theorem wait_time_not_binding:
  "snd (wait_time ex_both_blocked 2000 2000000000) = 10
   \<and> binding_delay ex_both_blocked 2000 2000000000 = 1000
   \<and> snd (wait_time ex_both_blocked 2000 2000000000) \<noteq> binding_delay ex_both_blocked 2000 2000000000
   \<and> \<not> snd (can_request ex_both_blocked 2011 2011000000 None)
   \<and> \<not> snd (can_request ex_both_blocked 2500 2500000000 None)
   \<and> \<not> snd (can_request ex_both_blocked 2999 2999000000 None)"
  by (simp add: ex_both_blocked_eq default_rate_limit_config_def can_request_def wait_time_def
        get_counts_def cleanup_old_requests_def oldest_or_def Let_def binding_delay_def
        first_window_delay_def upstream_delay_def api_blocks_def window_delay_def float_eval)

subsection \<open>A full minute window\<close>

text \<open>
  C3: after exactly \<open>requests_per_minute\<close> recorded requests that all fall within the
  minute window, \<open>can_request\<close> refuses and \<open>wait_time\<close> is positive and at most the
  window. The code breaks this on the edge of the window: a request that is exactly one
  window old is still counted by the cleanup pass (it drops only timestamps below
  \<open>now - window\<close>), so \<open>can_request\<close> refuses, but its delay is 0, which \<open>wait_time\<close>
  does not accept as a wait, and it falls through to the answer 0. With a limit of one
  request per minute, one request at time 1000 and the clock at 1060:
\<close>

theorem minute_edge_wait_zero:
  "\<not> snd (can_request ex_boundary 1060 1060 None) \<and> snd (wait_time ex_boundary 1060 1060) = 0"
  by (simp add: ex_boundary_eq default_rate_limit_config_def can_request_def wait_time_def
        get_counts_def cleanup_old_requests_def oldest_or_def Let_def float_eval)

text \<open>
  Rounding widens the edge: a request made \<open>2 ^ -22\<close> seconds less than a minute before
  \<open>2 ^ 31\<close> is still inside the window at \<open>2 ^ 31\<close>, but \<open>oldest + 60\<close> rounds to \<open>2 ^ 31\<close>,
  the wait is 0 and \<open>wait_time\<close> answers 0 while \<open>can_request\<close> refuses.
\<close>

lemma minute_rounding_wait_zero:
  "\<not> snd (can_request ex_rounding (2 ^ 31) 0 None) \<and> snd (wait_time ex_rounding (2 ^ 31) 0) = 0"
proof -
  have tie: "float_round (9007199254740993 / 4194304) = 2147483648"
    using float_round_tie by simp
  show ?thesis
    by (simp add: ex_rounding_eq default_rate_limit_config_def can_request_def wait_time_def
          get_counts_def cleanup_old_requests_def oldest_or_def Let_def float_eval tie
          api_blocks_def)
qed

subsection \<open>The reserve category\<close>



section \<open>Properties of the adaptive interval\<close>

text \<open>
  Each activity predicate first drops the samples that have left the window. With clock
  readings that do not go back, a cleanup pass at an earlier reading does not change
  what a later predicate sees.
\<close>

lemma cleanup_twice:
  "a \<le> b \<Longrightarrow> cleanup_old_samples (cleanup_old_samples tr a) b = cleanup_old_samples tr b"
proof -
  assume "a \<le> b"
  then have "filter (\<lambda>(ts, c). b - window_size tr < ts) (filter (\<lambda>(ts, c). a - window_size tr < ts) xs)
             = filter (\<lambda>(ts, c). b - window_size tr < ts) xs" for xs :: "(int \<times> int) list"
    by (induction xs) auto
  then show ?thesis
    by (simp add: cleanup_old_samples_def)
qed

lemma is_spiking_tracker: "fst (is_spiking tr now m) = cleanup_old_samples tr now"
  by (simp add: is_spiking_def Let_def)

lemma get_rate_tracker: "fst (get_rate tr now) = cleanup_old_samples tr now"
  by (simp add: get_rate_def Let_def)

lemma is_high_activity_tracker: "fst (is_high_activity tr now th) = cleanup_old_samples tr now"
  using get_rate_tracker [of tr now] by (cases "get_rate tr now") (simp add: is_high_activity_def)

lemma get_rate_after_cleanup:
  "a \<le> b \<Longrightarrow> get_rate (cleanup_old_samples tr a) b = get_rate tr b"
  by (simp add: get_rate_def cleanup_twice)

lemma is_high_after_cleanup:
  "a \<le> b \<Longrightarrow> is_high_activity (cleanup_old_samples tr a) b th = is_high_activity tr b th"
  by (simp add: is_high_activity_def get_rate_after_cleanup)

lemma is_low_after_cleanup:
  "a \<le> b \<Longrightarrow> is_low_activity (cleanup_old_samples tr a) b th = is_low_activity tr b th"
  by (simp add: is_low_activity_def get_rate_after_cleanup)

lemma adaptive_interval_cases:
  assumes "DEFAULT_INTERVALS ep = Some cfg" and "now1 \<le> now2" and "now2 \<le> now3"
  shows "snd (get_adaptive_interval tr ep now1 now2 now3) =
           (if snd (is_spiking tr now1 3) then minimum cfg
            else if snd (is_high_activity tr now2 10)
              then max (td_mul_float (default_td cfg) (1, 2)) (minimum cfg)
            else if snd (is_low_activity tr now3 1)
              then min (default_td cfg * 2) (maximum cfg)
            else default_td cfg)"
proof -
  obtain tr1 sp where s: "is_spiking tr now1 3 = (tr1, sp)"
    by (cases "is_spiking tr now1 3")
  then have tr1: "tr1 = cleanup_old_samples tr now1"
    using is_spiking_tracker [of tr now1 3] by simp
  obtain tr2 hi where h: "is_high_activity tr1 now2 10 = (tr2, hi)"
    by (cases "is_high_activity tr1 now2 10")
  then have h': "is_high_activity tr now2 10 = (tr2, hi)"
    using assms(2) by (simp add: tr1 is_high_after_cleanup)
  then have tr2: "tr2 = cleanup_old_samples tr now2"
    using is_high_activity_tracker [of tr now2 10] by simp
  obtain tr3 lo where l: "is_low_activity tr2 now3 1 = (tr3, lo)"
    by (cases "is_low_activity tr2 now3 1")
  then have l': "is_low_activity tr now3 1 = (tr3, lo)"
    using assms(3) by (simp add: tr2 is_low_after_cleanup)
  show ?thesis
    using assms(1) s h l h' l' by (simp add: get_adaptive_interval_def Let_def)
qed

lemma configured_half_exact:
  "DEFAULT_INTERVALS ep = Some cfg \<Longrightarrow> 2 * td_mul_float (default_td cfg) (1, 2) = default_td cfg"
  by (cases ep) (auto simp add: td_mul_float_def divide_and_round_def minutes_def hours_def Let_def)

lemma quiet_predicates:
  assumes "samples (cleanup_old_samples tr now) = []"
  shows "\<not> snd (is_spiking tr now m)" and "snd (get_rate tr now) = 0"
  using assms by (simp_all add: is_spiking_def get_rate_def Let_def)

text \<open>
  C5: for every endpoint category with configured intervals (default, minimum,
  maximum), the adaptive interval is the minimum when the activity is spiking; else
  \<open>max (default \<times> 0.5) minimum\<close> when the activity is high; else
  \<open>min (default \<times> 2) maximum\<close> when the activity is low; else the default. Half of
  every configured default is exact. With default 5 minutes, minimum 1 minute and
  maximum 30 minutes (the new-posts category) and no sample left in the window, the
  activity is low and the interval is \<open>min (10 minutes) (30 minutes) = 10 minutes\<close>. The
  three predicates read the clock one after the other, at \<open>now1 \<le> now2 \<le> now3\<close>.
\<close>

theorem adaptive_interval_selection:
  "now1 \<le> now2 \<Longrightarrow> now2 \<le> now3 \<Longrightarrow>
     (DEFAULT_INTERVALS ep = Some cfg \<longrightarrow>
        snd (get_adaptive_interval tr ep now1 now2 now3) =
          (if snd (is_spiking tr now1 3) then minimum cfg
           else if snd (is_high_activity tr now2 10)
             then max (td_mul_float (default_td cfg) (1, 2)) (minimum cfg)
           else if snd (is_low_activity tr now3 1)
             then min (default_td cfg * 2) (maximum cfg)
           else default_td cfg)
        \<and> 2 * td_mul_float (default_td cfg) (1, 2) = default_td cfg)
     \<and> (samples (cleanup_old_samples tr now1) = [] \<longrightarrow>
          DEFAULT_INTERVALS EP_NEW_POSTS =
            Some \<lparr>default_td = minutes 5, minimum = minutes 1, maximum = minutes 30\<rparr>
          \<and> snd (is_low_activity tr now3 1)
          \<and> snd (get_adaptive_interval tr EP_NEW_POSTS now1 now2 now3)
                = min (minutes 10) (minutes 30)
          \<and> snd (get_adaptive_interval tr EP_NEW_POSTS now1 now2 now3) = minutes 10)"
proof -
  assume a: "now1 \<le> now2" and b: "now2 \<le> now3"
  have quiet: "samples (cleanup_old_samples tr n) = []"
    if "samples (cleanup_old_samples tr now1) = []" and "now1 \<le> n" for n
  proof -
    from that(2) have "cleanup_old_samples tr n = cleanup_old_samples (cleanup_old_samples tr now1) n"
      by (simp add: cleanup_twice)
    with that(1) show ?thesis
      by (simp add: cleanup_old_samples_def)
  qed
  have part2: "snd (is_low_activity tr now3 1)
      \<and> snd (get_adaptive_interval tr EP_NEW_POSTS now1 now2 now3) = minutes 10"
    if q: "samples (cleanup_old_samples tr now1) = []"
  proof -
    have q2: "samples (cleanup_old_samples tr now2) = []" and q3: "samples (cleanup_old_samples tr now3) = []"
      using quiet [OF q] a b by simp_all
    have s: "\<not> snd (is_spiking tr now1 3)"
      using q by (rule quiet_predicates)
    have h: "\<not> snd (is_high_activity tr now2 10)"
      using quiet_predicates(2) [OF q2] by (cases "get_rate tr now2") (simp add: is_high_activity_def)
    have l: "snd (is_low_activity tr now3 1)"
      using quiet_predicates(2) [OF q3] by (cases "get_rate tr now3") (simp add: is_low_activity_def)
    have "snd (get_adaptive_interval tr EP_NEW_POSTS now1 now2 now3)
            = min (minutes 5 * 2) (minutes 30)"
      using adaptive_interval_cases [OF _ a b, of EP_NEW_POSTS _ tr] s h l by simp
    with l show ?thesis
      by (simp add: minutes_def)
  qed
  show ?thesis
    using adaptive_interval_cases [OF _ a b] configured_half_exact part2
    by (auto simp add: minutes_def)
qed

theorem adaptive_interval_selection_witness:
  "(1000::int) \<le> 1001 \<and> (1001::int) \<le> 1002
   \<and> samples (cleanup_old_samples new_activity_tracker 1000) = []
   \<and> snd (get_adaptive_interval new_activity_tracker EP_NEW_POSTS 1000 1001 1002) = 600000000
   \<and> (120000000::int) \<le> 120000001 \<and> (120000001::int) \<le> 120000002
   \<and> DEFAULT_INTERVALS HOT_POSTS =
         Some \<lparr>default_td = minutes 15, minimum = minutes 5, maximum = hours 1\<rparr>
   \<and> \<not> snd (is_spiking ex_busy_tracker 120000000 3)
   \<and> snd (is_high_activity ex_busy_tracker 120000001 10)
   \<and> snd (get_adaptive_interval ex_busy_tracker HOT_POSTS 120000000 120000001 120000002)
         = 450000000"
proof -
  have a: "(1000::int) \<le> 1001" and b: "(1001::int) \<le> 1002"
    by simp_all
  have q: "samples (cleanup_old_samples new_activity_tracker 1000) = []"
    by (simp add: cleanup_old_samples_def new_activity_tracker_def)
  from adaptive_interval_selection [OF a b, where tr = new_activity_tracker] q
  have quiet: "snd (get_adaptive_interval new_activity_tracker EP_NEW_POSTS 1000 1001 1002) = 600000000"
    by (simp add: minutes_def)
  have c: "(120000000::int) \<le> 120000001" and d: "(120000001::int) \<le> 120000002"
    by simp_all
  have cfg: "DEFAULT_INTERVALS HOT_POSTS =
               Some \<lparr>default_td = minutes 15, minimum = minutes 5, maximum = hours 1\<rparr>"
    by simp
  have sp: "\<not> snd (is_spiking ex_busy_tracker 120000000 3)"
    by (simp add: is_spiking_def ex_busy_tracker_def cleanup_old_samples_def hours_def Let_def)
  have hi: "snd (is_high_activity ex_busy_tracker 120000001 10)"
    by (simp add: is_high_activity_def get_rate_def ex_busy_tracker_def cleanup_old_samples_def
          hours_def total_seconds_def Let_def)
  from adaptive_interval_selection [OF c d, where tr = ex_busy_tracker and ep = HOT_POSTS] cfg sp hi
  have busy: "snd (get_adaptive_interval ex_busy_tracker HOT_POSTS 120000000 120000001 120000002)
                = 450000000"
    by (simp add: minutes_def td_mul_float_def divide_and_round_def Let_def)
  from a b q quiet c d cfg sp hi busy show ?thesis
    by blast
qed

section \<open>Properties of the crawl policy rules\<close>

text \<open>
  The expression built from a rule path always parses, so the prefix fallback of
  \<open>matches\<close> is never taken: a path that ends in \<open>$\<close> gives the atoms of the rest
  followed by the end anchor, any other path the start anchor followed by its atoms.
\<close>

lemma special_chars:
  "bslash \<in> set re_special" "CHR ''*'' \<in> set re_special" "CHR ''.'' \<in> set re_special"
  "CHR ''^'' \<in> set re_special" "CHR ''$'' \<in> set re_special"
  "set ''()[]{}?*+|'' \<subseteq> set re_special"
  by (simp_all add: re_special_def bslash_def)

lemma bslash_neq: "bslash \<noteq> CHR ''*''" "bslash \<noteq> CHR ''.''" "bslash \<noteq> CHR ''$''" "bslash \<noteq> CHR ''^''"
  by (simp_all add: bslash_def)

lemma re_escape_Cons:
  "re_escape (c # cs) = (if c \<in> set re_special then [bslash, c] else [c]) @ re_escape cs"
  by (simp add: re_escape_def)

lemma re_escape_no_star_head: "re_escape cs = x # xs \<Longrightarrow> x \<noteq> CHR ''*''"
  using special_chars(2) bslash_neq(1)
  by (cases cs) (auto simp add: re_escape_Cons re_escape_def split: if_splits)

lemma replace_star_Cons:
  "a \<noteq> bslash \<or> rest = [] \<or> hd rest \<noteq> CHR ''*'' \<Longrightarrow> replace_star (a # rest) = a # replace_star rest"
  by (cases rest) auto

lemma replace_star_escape: "replace_star (re_escape q) = concat (map translate_char q)"
proof (induction q)
  case Nil
  show ?case by (simp add: re_escape_def)
next
  case (Cons c q)
  have head: "re_escape q = [] \<or> hd (re_escape q) \<noteq> CHR ''*''"
    using re_escape_no_star_head [of q] by (cases "re_escape q") auto
  show ?case
  proof (cases "c = CHR ''*''")
    case True
    then show ?thesis
      using Cons special_chars(2) by (simp add: re_escape_Cons translate_char_def)
  next
    case False
    note not_star = this
    show ?thesis
    proof (cases "c \<in> set re_special")
      case True
      have "replace_star (bslash # c # re_escape q) = bslash # replace_star (c # re_escape q)"
        using not_star by simp
      also have "replace_star (c # re_escape q) = c # replace_star (re_escape q)"
        using head by (intro replace_star_Cons) auto
      finally show ?thesis
        using True not_star Cons by (simp add: re_escape_Cons translate_char_def)
    next
      case False
      then have "c \<noteq> bslash"
        using special_chars(1) by auto
      then have "replace_star (c # re_escape q) = c # replace_star (re_escape q)"
        by (intro replace_star_Cons) auto
      then show ?thesis
        using False not_star Cons by (simp add: re_escape_Cons translate_char_def)
    qed
  qed
qed

lemma re_parse_plain:
  "c \<notin> set re_special \<Longrightarrow> re_parse (c # cs) = map_option ((#) (Lit c)) (re_parse cs)"
  using special_chars by auto

lemma re_parse_escaped:
  "c \<in> set re_special \<Longrightarrow> re_parse (bslash # c # cs) = map_option ((#) (Lit c)) (re_parse cs)"
  by simp

lemma re_parse_dot_star: "re_parse (CHR ''.'' # CHR ''*'' # cs) = map_option ((#) AnyStar) (re_parse cs)"
  using bslash_neq(2) by simp

lemma translate_star: "translate_char (CHR ''*'') = ''.*''" "glob_atom (CHR ''*'') = AnyStar"
  by (simp_all add: translate_char_def glob_atom_def)

lemma translate_special:
  "c \<in> set re_special \<Longrightarrow> c \<noteq> CHR ''*'' \<Longrightarrow> translate_char c = [bslash, c]"
  "c \<noteq> CHR ''*'' \<Longrightarrow> glob_atom c = Lit c"
  by (simp_all add: translate_char_def glob_atom_def)

lemma translate_plain: "c \<notin> set re_special \<Longrightarrow> translate_char c = [c]"
  using special_chars(2) by (auto simp add: translate_char_def)

lemma re_parse_translated:
  "re_parse (concat (map translate_char q) @ rest)
     = map_option (\<lambda>ats. map glob_atom q @ ats) (re_parse rest)"
proof (induction q)
  case Nil
  show ?case by (simp add: option.map_ident)
next
  case (Cons c q)
  let ?tail = "concat (map translate_char q) @ rest"
  have step: "map_option ((#) a) (map_option (\<lambda>ats. pre @ ats) x) = map_option (\<lambda>ats. (a # pre) @ ats) x"
    for a :: re_atom and pre x
    by (cases x) simp_all
  have split: "concat (map translate_char (c # q)) @ rest = translate_char c @ ?tail"
    by simp
  have parse_c: "re_parse (translate_char c @ ?tail) = map_option ((#) (glob_atom c)) (re_parse ?tail)"
  proof (cases "c = CHR ''*''")
    case True
    show ?thesis
      unfolding True translate_star using re_parse_dot_star by (simp del: re_parse.simps)
  next
    case False
    show ?thesis
    proof (cases "c \<in> set re_special")
      case True
      show ?thesis
        unfolding translate_special(1) [OF True False] translate_special(2) [OF False]
        using re_parse_escaped [OF True] by (simp del: re_parse.simps)
    next
      case n: False
      show ?thesis
        unfolding translate_plain [OF n] translate_special(2) [OF False]
        using re_parse_plain [OF n] by (simp del: re_parse.simps)
    qed
  qed
  show ?case
    unfolding split parse_c Cons step by (cases "re_parse rest") simp_all
qed

lemma ends_with_snoc2: "ends_with (xs @ [a, b]) [c, d] = (a = c \<and> b = d)"
  by (simp add: ends_with_def)

lemma ends_with_snoc1: "ends_with (xs @ [b]) [c, d] \<Longrightarrow> b = d"
  by (cases xs rule: rev_cases) (auto simp add: ends_with_def)

lemma translated_ends_with:
  "ends_with (concat (map translate_char q)) [bslash, CHR ''$''] = (q \<noteq> [] \<and> last q = CHR ''$'')"
proof (cases q rule: rev_cases)
  case Nil
  then show ?thesis by (simp add: ends_with_def)
next
  case (snoc q' c)
  show ?thesis
  proof (cases "c = CHR ''*''")
    case True
    then show ?thesis
      using ends_with_snoc2 [of "concat (map translate_char q')" "CHR ''.''" "CHR ''*''" bslash "CHR ''$''"]
      by (simp add: snoc translate_star)
  next
    case False
    show ?thesis
    proof (cases "c \<in> set re_special")
      case True
      then show ?thesis
        using ends_with_snoc2 [of "concat (map translate_char q')" bslash c bslash "CHR ''$''"]
        by (simp add: snoc translate_special(1) [OF True False])
    next
      case n: False
      then have "c \<noteq> CHR ''$''"
        using special_chars(5) by auto
      then show ?thesis
        using ends_with_snoc1 [of "concat (map translate_char q')" c bslash "CHR ''$''"]
        by (auto simp add: snoc translate_plain [OF n])
    qed
  qed
qed

lemma translated_strip:
  "q \<noteq> [] \<Longrightarrow> last q = CHR ''$'' \<Longrightarrow>
     take (length (concat (map translate_char q)) - 2) (concat (map translate_char q))
       = concat (map translate_char (butlast q))"
proof (cases q rule: rev_cases)
  case Nil
  assume "q \<noteq> []"
  with Nil show ?thesis by simp
next
  case (snoc q' c)
  assume "last q = CHR ''$''"
  with snoc have "translate_char c = [bslash, CHR ''$'']"
    using translate_special(1) [OF special_chars(5)] by simp
  with snoc show ?thesis by simp
qed

lemma compiled_rule:
  "re_parse (anchor (replace_star (re_escape q))) =
     Some (if q \<noteq> [] \<and> last q = CHR ''$''
           then map glob_atom (butlast q) @ [Eol]
           else Bol # map glob_atom q)"
proof (cases "q \<noteq> [] \<and> last q = CHR ''$''")
  case True
  then have "anchor (replace_star (re_escape q)) = concat (map translate_char (butlast q)) @ ''$''"
    by (simp add: anchor_def replace_star_escape translated_ends_with translated_strip)
  moreover have "re_parse ''$'' = Some [Eol]"
    using bslash_neq by simp
  ultimately show ?thesis
    using True by (simp add: re_parse_translated del: re_parse.simps)
next
  case False
  then have "\<not> ends_with (concat (map translate_char q)) [bslash, CHR ''$'']"
    by (simp only: translated_ends_with not_False_eq_True)
  then have "anchor (replace_star (re_escape q)) = CHR ''^'' # (concat (map translate_char q) @ [])"
    by (simp add: anchor_def replace_star_escape)
  moreover have caret: "re_parse (CHR ''^'' # cs) = map_option ((#) Bol) (re_parse cs)" for cs
    using bslash_neq by simp
  have "re_parse (CHR ''^'' # (concat (map translate_char q) @ [])) = Some (Bol # map glob_atom q)"
    unfolding caret re_parse_translated by simp
  ultimately show ?thesis
    using False by (auto simp del: re_parse.simps append_Nil2)
qed

lemma matches_compiled:
  "matches rule p =
     match_atoms (if path rule \<noteq> [] \<and> last (path rule) = CHR ''$''
                  then map glob_atom (butlast (path rule)) @ [Eol]
                  else Bol # map glob_atom (path rule)) p True"
  unfolding matches_def Let_def compiled_rule by simp

lemma glob_atom_lits: "CHR ''*'' \<notin> set q \<Longrightarrow> map glob_atom q = map Lit q"
  by (induction q) (auto simp add: glob_atom_def)

lemma glob_atom_no_bol: "Bol \<notin> set (map glob_atom q)"
  by (induction q) (auto simp add: glob_atom_def)

lemma match_atoms_flag:
  "Bol \<notin> set ats \<Longrightarrow> match_atoms ats s b = match_atoms ats s b'"
proof (induction ats s b rule: match_atoms.induct)
  case (1 s at_start)
  show ?case by simp
next
  case (2 c ats s at_start)
  show ?case by (cases s) simp_all
next
  case (3 ats s at_start)
  from 3(3) have nb: "Bol \<notin> set ats" by simp
  have first: "match_atoms ats s at_start = match_atoms ats s b'"
    using 3(1) [OF nb] .
  show ?case
    using first by (cases s) simp_all
next
  case (4 ats s at_start)
  from 4(2) show ?case by simp
next
  case (5 ats s at_start)
  from 5(2) have nb: "Bol \<notin> set ats" by simp
  from 5(1) [OF nb] show ?case
    by simp
qed

lemma match_lits:
  "match_atoms (map Lit q @ rest) s b = (\<exists>s'. s = q @ s' \<and> match_atoms rest s' (b \<and> q = []))"
proof (induction q arbitrary: s b)
  case Nil
  show ?case by simp
next
  case (Cons c q)
  show ?case
  proof (cases s)
    case Nil
    then show ?thesis by simp
  next
    case s: (Cons x xs)
    have "match_atoms (map Lit (c # q) @ rest) s b = (x = c \<and> match_atoms (map Lit q @ rest) xs False)"
      by (simp add: s)
    also have "\<dots> = (x = c \<and> (\<exists>s'. xs = q @ s' \<and> match_atoms rest s' False))"
      using Cons.IH [of xs False] by (cases q) (simp_all add: Cons.IH)
    also have "\<dots> = (\<exists>s'. s = (c # q) @ s' \<and> match_atoms rest s' (b \<and> c # q = []))"
      by (auto simp add: s)
    finally show ?thesis .
  qed
qed

lemma match_any_star_unfold:
  "match_atoms (AnyStar # rest) (x # xs) b =
     (match_atoms rest (x # xs) b \<or> (x \<noteq> newline \<and> match_atoms (AnyStar # rest) xs False))"
  by simp

lemma match_any_star_nil: "match_atoms (AnyStar # rest) [] b = match_atoms rest [] b"
  by simp

lemma match_any_star:
  assumes nb: "Bol \<notin> set rest"
  shows "match_atoms (AnyStar # rest) s b =
           (\<exists>mid s'. s = mid @ s' \<and> newline \<notin> set mid \<and> match_atoms rest s' False)"
proof (induction s arbitrary: b)
  case Nil
  have "match_atoms rest [] b = match_atoms rest [] False"
    using nb by (rule match_atoms_flag)
  then show ?case
    unfolding match_any_star_nil by simp
next
  case (Cons x xs)
  have flag: "match_atoms rest (x # xs) b = match_atoms rest (x # xs) False"
    using nb by (rule match_atoms_flag)
  have ih: "match_atoms (AnyStar # rest) xs False =
              (\<exists>mid s'. xs = mid @ s' \<and> newline \<notin> set mid \<and> match_atoms rest s' False)"
    by (rule Cons.IH)
  show ?case
    unfolding match_any_star_unfold flag ih
  proof
    assume "match_atoms rest (x # xs) False \<or>
            x \<noteq> newline \<and> (\<exists>mid s'. xs = mid @ s' \<and> newline \<notin> set mid \<and> match_atoms rest s' False)"
    then show "\<exists>mid s'. x # xs = mid @ s' \<and> newline \<notin> set mid \<and> match_atoms rest s' False"
    proof
      assume "match_atoms rest (x # xs) False"
      then have "x # xs = [] @ (x # xs) \<and> newline \<notin> set [] \<and> match_atoms rest (x # xs) False"
        by simp
      then show ?thesis by blast
    next
      assume "x \<noteq> newline \<and> (\<exists>mid s'. xs = mid @ s' \<and> newline \<notin> set mid \<and> match_atoms rest s' False)"
      then obtain mid s' where "x \<noteq> newline" "xs = mid @ s'" "newline \<notin> set mid"
        "match_atoms rest s' False"
        by blast
      then have "x # xs = (x # mid) @ s' \<and> newline \<notin> set (x # mid) \<and> match_atoms rest s' False"
        by simp
      then show ?thesis by blast
    qed
  next
    assume "\<exists>mid s'. x # xs = mid @ s' \<and> newline \<notin> set mid \<and> match_atoms rest s' False"
    then obtain mid s' where m: "x # xs = mid @ s'" "newline \<notin> set mid" "match_atoms rest s' False"
      by blast
    show "match_atoms rest (x # xs) False \<or>
          x \<noteq> newline \<and> (\<exists>mid s'. xs = mid @ s' \<and> newline \<notin> set mid \<and> match_atoms rest s' False)"
    proof (cases mid)
      case Nil
      with m show ?thesis by simp
    next
      case (Cons y ys)
      with m have "x \<noteq> newline" "xs = ys @ s'" "newline \<notin> set ys"
        by auto
      with m(3) show ?thesis by blast
    qed
  qed
qed

lemma starts_with_iff: "starts_with p q = (\<exists>s'. p = q @ s')"
proof
  assume "starts_with p q"
  then have "p = q @ drop (length q) p"
    unfolding starts_with_def using append_take_drop_id [of "length q" p] by simp
  then show "\<exists>s'. p = q @ s'" ..
next
  assume "\<exists>s'. p = q @ s'"
  then show "starts_with p q"
    by (auto simp add: starts_with_def)
qed

lemma literal_rule:
  assumes "CHR ''*'' \<notin> set q" and "q = [] \<or> last q \<noteq> CHR ''$''"
  shows "matches \<lparr>path = q, allow = a\<rparr> p = starts_with p q"
proof -
  have "matches \<lparr>path = q, allow = a\<rparr> p = match_atoms (Bol # map Lit q @ []) p True"
    using assms by (auto simp add: matches_compiled glob_atom_lits)
  also have "\<dots> = match_atoms (map Lit q @ []) p True"
    by (simp del: append_Nil2)
  also have "\<dots> = (\<exists>s'. p = q @ s')"
    unfolding match_lits by simp
  finally show ?thesis
    by (simp add: starts_with_iff)
qed

lemma anchored_rule:
  assumes "CHR ''*'' \<notin> set q"
  shows "matches \<lparr>path = q @ ''$'', allow = a\<rparr> p = (p = q \<or> p = q @ [newline])"
proof -
  have "matches \<lparr>path = q @ ''$'', allow = a\<rparr> p = match_atoms (map Lit q @ [Eol]) p True"
    using assms by (simp add: matches_compiled glob_atom_lits)
  also have "\<dots> = (\<exists>s'. p = q @ s' \<and> (s' = [] \<or> s' = [newline]))"
    unfolding match_lits by simp
  also have "\<dots> = (p = q \<or> p = q @ [newline])"
    by auto
  finally show ?thesis .
qed

lemma wildcard_rule:
  assumes "CHR ''*'' \<notin> set q" and "CHR ''*'' \<notin> set q'" and "q' = [] \<or> last q' \<noteq> CHR ''$''"
  shows "matches \<lparr>path = q @ ''*'' @ q', allow = a\<rparr> p =
           (\<exists>mid. newline \<notin> set mid \<and> starts_with p (q @ mid @ q'))"
proof -
  have nb: "Bol \<notin> set (map Lit q' @ [])"
    by auto
  have "last (q @ ''*'' @ q') \<noteq> CHR ''$''"
    using assms(3) by auto
  then have "matches \<lparr>path = q @ ''*'' @ q', allow = a\<rparr> p =
               match_atoms (Bol # map Lit q @ AnyStar # map Lit q' @ []) p True"
    using assms(1,2) by (simp add: matches_compiled glob_atom_lits translate_star)
  also have "\<dots> = match_atoms (map Lit q @ AnyStar # map Lit q' @ []) p True"
    by (simp del: append_Nil2)
  also have "\<dots> = (\<exists>s'. p = q @ s' \<and> match_atoms (AnyStar # map Lit q' @ []) s' (q = []))"
    unfolding match_lits by simp
  also have "\<dots> = (\<exists>s' mid s''. p = q @ s' \<and> s' = mid @ s'' \<and> newline \<notin> set mid
                      \<and> match_atoms (map Lit q' @ []) s'' False)"
    unfolding match_any_star [OF nb] by blast
  also have "\<dots> = (\<exists>s' mid s''. p = q @ s' \<and> s' = mid @ s'' \<and> newline \<notin> set mid
                      \<and> (\<exists>s3. s'' = q' @ s3))"
    unfolding match_lits by simp
  also have "\<dots> = (\<exists>mid. newline \<notin> set mid \<and> (\<exists>s3. p = (q @ mid @ q') @ s3))"
    by auto
  finally show ?thesis
    by (simp only: starts_with_iff)
qed

lemma first_match_find:
  "first_match rs p = (case find (\<lambda>r. matches r p) rs of None \<Rightarrow> True | Some r \<Rightarrow> allow r)"
  by (induction rs) simp_all

lemmas rule_eval =
  matches_def Let_def re_escape_def re_special_def bslash_def newline_def anchor_def
  ends_with_def Disallow_def Allow_def directives_def is_allowed_def

lemma ex_admin: "matches (Disallow ''/admin/'') ''/admin/settings''"
  by (simp add: rule_eval)

lemma ex_public: "\<not> matches (Disallow ''/admin/'') ''/public''"
  by (simp add: rule_eval)

lemma ex_page: "matches (Disallow ''/page$'') ''/page''"
  by (simp add: rule_eval)

lemma ex_subpage: "\<not> matches (Disallow ''/page$'') ''/page/subpage''"
  by (simp add: rule_eval)

lemma ex_allow_first: "matches (Allow ''/admin/public/'') ''/admin/public/''"
  by (simp add: rule_eval)

lemma ex_wild: "matches (Disallow ''/a*/private'') ''/a/x/y/private/z''"
  by (simp add: rule_eval)

text \<open>
  C6: the rules of a directive set are tried in the order of their declaration, the
  first rule that matches the path decides, and a path that no rule matches is
  allowed. \<open>Disallow: /admin/\<close> blocks \<open>/admin/settings\<close> and allows \<open>/public\<close>;
  \<open>Disallow: /page$\<close> blocks \<open>/page\<close> and allows \<open>/page/subpage\<close>; with
  \<open>Allow: /admin/public/\<close> declared before \<open>Disallow: /admin/\<close> the path
  \<open>/admin/public/\<close> is allowed, and blocked with the two rules in the other order. A
  rule path without \<open>*\<close> and without a final \<open>$\<close> matches the paths it is a prefix of;
  with a final \<open>$\<close> it matches the path itself (and the path followed by one newline,
  as \<open>$\<close> does in \<open>re.match\<close>); a \<open>*\<close> in it matches any run of characters other than
  newlines.
\<close>

theorem first_matching_rule_wins:
  "is_allowed d p = (case find (\<lambda>r. matches r p) (rules d) of None \<Rightarrow> True | Some r \<Rightarrow> allow r)
   \<and> \<not> is_allowed (directives [Disallow ''/admin/'']) ''/admin/settings''
   \<and> is_allowed (directives [Disallow ''/admin/'']) ''/public''
   \<and> \<not> is_allowed (directives [Disallow ''/page$'']) ''/page''
   \<and> is_allowed (directives [Disallow ''/page$'']) ''/page/subpage''
   \<and> is_allowed (directives [Allow ''/admin/public/'', Disallow ''/admin/'']) ''/admin/public/''
   \<and> \<not> is_allowed (directives [Disallow ''/admin/'', Allow ''/admin/public/'']) ''/admin/public/''
   \<and> (CHR ''*'' \<notin> set q \<and> (q = [] \<or> last q \<noteq> CHR ''$'') \<longrightarrow>
        matches \<lparr>path = q, allow = a\<rparr> p = starts_with p q)
   \<and> (CHR ''*'' \<notin> set q \<longrightarrow>
        matches \<lparr>path = q @ ''$'', allow = a\<rparr> p = (p = q \<or> p = q @ [newline]))
   \<and> (CHR ''*'' \<notin> set q \<and> CHR ''*'' \<notin> set q' \<and> (q' = [] \<or> last q' \<noteq> CHR ''$'') \<longrightarrow>
        matches \<lparr>path = q @ ''*'' @ q', allow = a\<rparr> p =
          (\<exists>mid. newline \<notin> set mid \<and> starts_with p (q @ mid @ q')))"
proof -
  have order: "is_allowed d p =
                 (case find (\<lambda>r. matches r p) (rules d) of None \<Rightarrow> True | Some r \<Rightarrow> allow r)"
    by (simp add: is_allowed_def first_match_find)
  have e1: "\<not> is_allowed (directives [Disallow ''/admin/'']) ''/admin/settings''"
    using ex_admin by (simp add: is_allowed_def directives_def Disallow_def)
  have e2: "is_allowed (directives [Disallow ''/admin/'']) ''/public''"
    using ex_public by (simp add: is_allowed_def directives_def)
  have e3: "\<not> is_allowed (directives [Disallow ''/page$'']) ''/page''"
    using ex_page by (simp add: is_allowed_def directives_def Disallow_def)
  have e4: "is_allowed (directives [Disallow ''/page$'']) ''/page/subpage''"
    using ex_subpage by (simp add: is_allowed_def directives_def)
  have e5: "is_allowed (directives [Allow ''/admin/public/'', Disallow ''/admin/'']) ''/admin/public/''"
    using ex_allow_first by (simp add: is_allowed_def directives_def Allow_def)
  have e6: "\<not> is_allowed (directives [Disallow ''/admin/'', Allow ''/admin/public/'']) ''/admin/public/''"
    by (simp add: rule_eval)
  show ?thesis
    using order e1 e2 e3 e4 e5 e6 literal_rule [of q a p] anchored_rule [of q a p]
      wildcard_rule [of q q' a p]
    by blast
qed

theorem first_matching_rule_wins_witness:
  "CHR ''*'' \<notin> set ''/admin/'' \<and> last ''/admin/'' \<noteq> CHR ''$''
   \<and> starts_with ''/admin/settings'' ''/admin/''
   \<and> matches \<lparr>path = ''/admin/'', allow = False\<rparr> ''/admin/settings''
   \<and> CHR ''*'' \<notin> set ''/page''
   \<and> matches \<lparr>path = ''/page'' @ ''$'', allow = False\<rparr> ''/page''
   \<and> \<not> matches \<lparr>path = ''/page'' @ ''$'', allow = False\<rparr> ''/page/subpage''
   \<and> CHR ''*'' \<notin> set ''/private''
   \<and> starts_with ''/a/x/private/y'' (''/a'' @ ''/x'' @ ''/private'')
   \<and> matches \<lparr>path = ''/a'' @ ''*'' @ ''/private'', allow = False\<rparr> ''/a/x/private/y''"
proof -
  have a: "CHR ''*'' \<notin> set ''/admin/''" and b: "last ''/admin/'' \<noteq> CHR ''$''"
    and c: "starts_with ''/admin/settings'' ''/admin/''"
    by (simp_all add: starts_with_def)
  from first_matching_rule_wins [where q = "''/admin/''" and p = "''/admin/settings''" and a = False]
    a b c
  have m1: "matches \<lparr>path = ''/admin/'', allow = False\<rparr> ''/admin/settings''"
    by blast
  have d: "CHR ''*'' \<notin> set ''/page''"
    by simp
  from first_matching_rule_wins [where q = "''/page''" and p = "''/page''" and a = False] d
  have m2: "matches \<lparr>path = ''/page'' @ ''$'', allow = False\<rparr> ''/page''"
    by blast
  have ne: "''/page/subpage'' \<noteq> ''/page''" "''/page/subpage'' \<noteq> ''/page'' @ [newline]"
    by simp_all
  from first_matching_rule_wins [where q = "''/page''" and p = "''/page/subpage''" and a = False] d ne
  have m3: "\<not> matches \<lparr>path = ''/page'' @ ''$'', allow = False\<rparr> ''/page/subpage''"
    by blast
  have e: "CHR ''*'' \<notin> set ''/a''" and f: "CHR ''*'' \<notin> set ''/private''"
    and g: "last ''/private'' \<noteq> CHR ''$''"
    and h: "newline \<notin> set ''/x''"
    and i: "starts_with ''/a/x/private/y'' (''/a'' @ ''/x'' @ ''/private'')"
    by (simp_all add: starts_with_def newline_def)
  from first_matching_rule_wins
         [where q = "''/a''" and q' = "''/private''" and p = "''/a/x/private/y''" and a = False]
    e f g h i
  have m4: "matches \<lparr>path = ''/a'' @ ''*'' @ ''/private'', allow = False\<rparr> ''/a/x/private/y''"
    by blast
  from a b c m1 d m2 m3 f i m4 show ?thesis
    by blast
qed

end
